theory Spec2Isabelle
  imports Complex_Main
begin

section \<open>Data model (GameState classes of AiWorker.js)\<close>

text \<open>
  \<^verbatim>\<open>PLAYER_ID\<close> is the frozen object with the two identifiers \<^verbatim>\<open>"user"\<close> and \<^verbatim>\<open>"bot"\<close>;
  the \<^verbatim>\<open>Player\<close> constructor rejects every other id and only these two values are ever
  pushed on a tower, so a tower is a list of \<open>player_id\<close>, bottom first.
\<close>

datatype player_id = USER | BOT

text \<open>
  The source throws plain \<^verbatim>\<open>Error\<close> objects that differ in their message. The names are
  the ones of the specification: \<open>InvalidMove\<close> for "source cell has no tower" and
  "cannot stack towers of the same player", \<open>InvalidState\<close> for "Evaluation error for
  invalid material position", \<open>InvalidInvocation\<close> for "findBestMove must be invoked for
  the bot AI opponent", \<open>NoLegalMoves\<close> for "could not determine possible moves".
  \<open>TypeError\<close> is what JavaScript raises when a property of \<^verbatim>\<open>undefined\<close> is read or
  written (a \<^verbatim>\<open>find\<close> that found nothing, an array index out of range).
\<close>

datatype error = InvalidMove | InvalidState | InvalidInvocation | NoLegalMoves | TypeError

record vault_counts =
  self :: int
  opponent :: int

record player =
  pid :: player_id
  isMaximizing :: bool
  turn :: bool
  lastHorizontal :: bool
  safetyTower :: int
  vault :: vault_counts
  winner :: bool

text \<open>
  A \<^verbatim>\<open>GridCell\<close> without its DOM fields. Its \<^verbatim>\<open>id\<close> is computed once by the constructor
  from the read-only row and column.
\<close>

record gridCell =
  row :: int
  column :: int
  svgLayout :: "player_id list"
  direction :: int
  dot :: bool

definition cell_id :: "gridCell \<Rightarrow> int" where
  "cell_id c = row c * 6 + column c"

record boardState =
  cells :: "gridCell list"
  twoPlayer :: "player list"

text \<open>A logged \<^verbatim>\<open>Move\<close>: deep copies of the two cells and of both players.\<close>

record move =
  srcCell :: gridCell
  tgtCell :: gridCell
  playerState :: "player list"

text \<open>The five groups of the \<^verbatim>\<open>Settings\<close> object, flattened.\<close>

record settings =
  safetyZone :: int
  materialOpponent :: int
  maxStackSize :: int
  depth :: int
  conqueredTotalWeight :: real
  conqueredOpponentWeight :: real
  weightRowDistance1 :: real
  weightRowDistance2 :: real
  weightRowDistance3 :: real
  weightRowDistance4 :: real
  weightRowDistance5 :: real
  safetyZoneTotalDistance :: real
  proximityOpponentWeight :: real
  proximityTotalWeight :: real
  accountedTotalWeight :: real

section \<open>Array helpers\<close>

text \<open>
  \<^verbatim>\<open>Array.prototype.find\<close> returns a reference to the first matching element, through
  which the caller then mutates the array's element. The model returns its index.
\<close>

primrec findIdx :: "('a \<Rightarrow> bool) \<Rightarrow> 'a list \<Rightarrow> nat option" where
  "findIdx P [] = None"
| "findIdx P (x # xs) = (if P x then Some 0 else map_option Suc (findIdx P xs))"

text \<open>\<^verbatim>\<open>xs.at(-1)\<close>: the last element, \<^verbatim>\<open>undefined\<close> (here \<open>None\<close>) on an empty array.\<close>

definition atLast :: "'a list \<Rightarrow> 'a option" where
  "atLast xs = (if xs = [] then None else Some (last xs))"

text \<open>
  The remainder operator \<^verbatim>\<open>%\<close> of JavaScript truncates towards zero: the result has the sign
  of the dividend.
\<close>

definition jsRem :: "int \<Rightarrow> int \<Rightarrow> int" where
  "jsRem a n = (if a < 0 then - ((- a) mod n) else a mod n)"

section \<open>Player setters (AiWorker.js, class Player)\<close>

definition set_safetyTower :: "int \<Rightarrow> player \<Rightarrow> player" where
  "set_safetyTower v p = p\<lparr>safetyTower := min 6 v\<rparr>"

definition set_vault :: "vault_counts \<Rightarrow> player \<Rightarrow> player" where
  "set_vault v p = p\<lparr>vault := \<lparr>self = min 6 (self v), opponent = min 6 (opponent v)\<rparr>\<rparr>"

section \<open>GameLogic.js\<close>

text \<open>
  The loop of \<^verbatim>\<open>stackTowers\<close> over the source stones, bottom first: push the stone, and
  when the target is then longer than \<^verbatim>\<open>maxStackSize\<close> credit the bottom stone to the
  mover's vault and shift it out.
\<close>

fun stackLoop :: "player_id list \<Rightarrow> player_id list \<Rightarrow> player \<Rightarrow> int \<Rightarrow> player_id list \<times> player" where
  "stackLoop [] tgt p m = (tgt, p)"
| "stackLoop (x # xs) tgt p m =
     (let pushed = tgt @ [x] in
      if int (length pushed) > m then
        (let selfVal = self (vault p);
             opponentVal = opponent (vault p);
             v = (if hd pushed = pid p
                  then \<lparr>self = selfVal + 1, opponent = opponentVal\<rparr>
                  else \<lparr>self = selfVal, opponent = opponentVal + 1\<rparr>)
         in stackLoop xs (tl pushed) (set_vault v p) m)
      else stackLoop xs pushed p m)"

text \<open>
  \<^verbatim>\<open>stackTowers(srcCell, tgtCell, player, maxStackSize)\<close> on the two stacks; the player is
  \<open>None\<close> when the caller's \<^verbatim>\<open>find\<close> found nobody to move, and is then only touched
  (a \<open>TypeError\<close>) at the first overflow.
\<close>

fun stackNoPlayer :: "player_id list \<Rightarrow> player_id list \<Rightarrow> int \<Rightarrow> error + player_id list" where
  "stackNoPlayer [] tgt m = Inr tgt"
| "stackNoPlayer (x # xs) tgt m =
     (if int (length (tgt @ [x])) > m then Inl TypeError else stackNoPlayer xs (tgt @ [x]) m)"

definition stackTowers ::
  "player_id list \<Rightarrow> player_id list \<Rightarrow> player option \<Rightarrow> int \<Rightarrow> error + (player_id list \<times> player option)" where
  "stackTowers src tgt po m =
     (if src = [] then Inl InvalidMove
      else if tgt = [] then Inr (src, po)
      else if atLast src \<noteq> atLast tgt then
        (case po of
           Some p \<Rightarrow> (case stackLoop src tgt p m of (tgt', p') \<Rightarrow> Inr (tgt', Some p'))
         | None \<Rightarrow> (case stackNoPlayer src tgt m of Inl e \<Rightarrow> Inl e | Inr tgt' \<Rightarrow> Inr (tgt', None)))
      else Inl InvalidMove)"

text \<open>
  \<^verbatim>\<open>playMove(srcInst, tgtInst, boardState, maxStackSize)\<close>. The two cells are objects of
  \<^verbatim>\<open>boardState.cells\<close>, given here by their positions \<open>s\<close> and \<open>t\<close> in that array. When
  both are the same object \<^verbatim>\<open>stackTowers\<close> throws before anything is written, so the
  functional updates below never alias. A position outside the array stands for
  \<^verbatim>\<open>undefined\<close>.
\<close>

definition playMove :: "nat \<Rightarrow> nat \<Rightarrow> boardState \<Rightarrow> int \<Rightarrow> error + boardState" where
  "playMove s t b m =
     (if s \<ge> length (cells b) \<or> t \<ge> length (cells b) then Inl TypeError
      else
        let srcInst = cells b ! s;
            tgtInst = cells b ! t;
            pi = findIdx (\<lambda>p. turn p) (twoPlayer b)
        in case stackTowers (svgLayout srcInst) (svgLayout tgtInst) (map_option ((!) (twoPlayer b)) pi) m of
             Inl e \<Rightarrow> Inl e
           | Inr (stack1, po) \<Rightarrow>
              (case (pi, po) of
                 (Some i, Some p1) \<Rightarrow>
                   let tgt1 = tgtInst\<lparr>svgLayout := stack1, direction := direction srcInst, dot := dot srcInst\<rparr>;
                       top = atLast (svgLayout srcInst);
                       tgt2 = (if top = Some USER \<and> row tgtInst = 5 \<and> dot srcInst = False
                               then tgt1\<lparr>direction := direction tgt1 * (-1), dot := True\<rparr> else tgt1);
                       tgt3 = (if top = Some BOT \<and> row tgtInst = 0 \<and> dot srcInst = False
                               then tgt2\<lparr>direction := direction tgt2 * (-1), dot := True\<rparr> else tgt2);
                       (tgt4, p2) = (if top = Some USER \<and> row tgtInst = 0 \<and> dot srcInst = True
                               then (tgt3\<lparr>svgLayout := [], direction := 0, dot := False\<rparr>,
                                     set_safetyTower (safetyTower p1 + 1) p1)
                               else (tgt3, p1));
                       (tgt5, p3) = (if top = Some BOT \<and> row tgtInst = 5 \<and> dot srcInst = True
                               then (tgt4\<lparr>svgLayout := [], direction := 0, dot := False\<rparr>,
                                     set_safetyTower (safetyTower p2 + 1) p2)
                               else (tgt4, p2));
                       src1 = srcInst\<lparr>svgLayout := [], direction := 0, dot := False\<rparr>;
                       p4 = p3\<lparr>lastHorizontal := (row tgtInst = row srcInst)\<rparr>
                   in Inr (b\<lparr>cells := (cells b)[t := tgt5, s := src1],
                             twoPlayer := (twoPlayer b)[i := p4]\<rparr>)
               | _ \<Rightarrow> Inl TypeError))"

text \<open>
  \<^verbatim>\<open>getLocalMoves(cellInst, player, boardState)\<close>: the candidate cells as positions in
  \<^verbatim>\<open>boardState.cells\<close>, in the order in which the source pushes them.
\<close>

definition neighbor :: "boardState \<Rightarrow> int \<Rightarrow> int \<Rightarrow> nat option" where
  "neighbor b r c = findIdx (\<lambda>inst. row inst = r \<and> column inst = c) (cells b)"

definition candidate :: "boardState \<Rightarrow> gridCell \<Rightarrow> nat option \<Rightarrow> nat list" where
  "candidate b cellInst n =
     (case n of
        None \<Rightarrow> []
      | Some j \<Rightarrow> if atLast (svgLayout (cells b ! j)) \<noteq> atLast (svgLayout cellInst) then [j] else [])"

definition getLocalMoves :: "gridCell \<Rightarrow> player \<Rightarrow> boardState \<Rightarrow> nat list" where
  "getLocalMoves cellInst p b =
     (let x = column cellInst; y = row cellInst; dir = direction cellInst in
        candidate b cellInst (neighbor b (y + dir) x)
      @ candidate b cellInst (neighbor b (y + 2 * dir) x)
      @ (if lastHorizontal p = False then
           candidate b cellInst (neighbor b y (jsRem (x + 5) 6))
         @ candidate b cellInst (neighbor b y (jsRem (x + 4) 6))
         @ candidate b cellInst (neighbor b y (jsRem (x + 7) 6))
         @ candidate b cellInst (neighbor b y (jsRem (x + 8) 6))
         else []))"

definition getAllPossibleMoves :: "boardState \<Rightarrow> player \<Rightarrow> (nat \<times> nat) list" where
  "getAllPossibleMoves b p =
     concat (map (\<lambda>s. map (\<lambda>t. (s, t)) (getLocalMoves (cells b ! s) p b))
                 (filter (\<lambda>s. length (svgLayout (cells b ! s)) > 0 \<and> atLast (svgLayout (cells b ! s)) = Some (pid p))
                         [0 ..< length (cells b)]))"

definition switchPlayer :: "player list \<Rightarrow> player list" where
  "switchPlayer ps = map (\<lambda>p. p\<lparr>turn := (if turn p = True then False else True)\<rparr>) ps"

text \<open>
  \<^verbatim>\<open>checkWin(boardState, player, settings)\<close>; the player is the object at position \<open>i\<close> of
  \<^verbatim>\<open>twoPlayer\<close> (a position outside stands for \<^verbatim>\<open>undefined\<close>). The result is the returned
  boolean and the board with the \<^verbatim>\<open>winner\<close> flag written. The callbacks of the two
  \<^verbatim>\<open>cells.find\<close> read \<^verbatim>\<open>opponent.id\<close>, so a missing opponent raises only when there is
  a cell to visit.
\<close>

definition checkWin :: "boardState \<Rightarrow> nat \<Rightarrow> settings \<Rightarrow> error + (bool \<times> boardState)" where
  "checkWin b i cfg =
     (if i \<ge> length (twoPlayer b) then Inl TypeError
      else
        let p = twoPlayer b ! i;
            won = b\<lparr>twoPlayer := (twoPlayer b)[i := p\<lparr>winner := True\<rparr>]\<rparr>
        in if (materialOpponent cfg > 0 \<and> opponent (vault p) \<ge> materialOpponent cfg)
              \<or> safetyTower p \<ge> safetyZone cfg
           then Inr (True, won)
           else
             (case findIdx (\<lambda>q. pid q \<noteq> pid p) (twoPlayer b) of
                None \<Rightarrow> if cells b = [] then (if turn p = False then Inr (True, won) else Inr (False, b))
                        else Inl TypeError
              | Some j \<Rightarrow>
                  let opp = twoPlayer b ! j;
                      opponentTower = findIdx (\<lambda>c. atLast (svgLayout c) = Some (pid opp)) (cells b);
                      owningTower = findIdx (\<lambda>c. atLast (svgLayout c) = Some (pid p)) (cells b)
                  in if turn p = False \<and> (opponentTower = None \<or> owningTower = None)
                     then Inr (True, won) else Inr (False, b)))"

section \<open>BoardState methods (AiWorker.js)\<close>

definition applyMoveAndTurn :: "boardState \<Rightarrow> nat \<Rightarrow> nat \<Rightarrow> int \<Rightarrow> error + boardState" where
  "applyMoveAndTurn b s t m =
     (case playMove s t b m of
        Inl e \<Rightarrow> Inl e
      | Inr b1 \<Rightarrow> Inr (b1\<lparr>twoPlayer := switchPlayer (twoPlayer b1)\<rparr>))"

text \<open>\<^verbatim>\<open>new Move(src.cloneInstance(), tgt.cloneInstance(), playerState.cloneInstance())\<close>.\<close>

definition logMove :: "boardState \<Rightarrow> nat \<Rightarrow> nat \<Rightarrow> move" where
  "logMove b s t = \<lparr>srcCell = cells b ! s, tgtCell = cells b ! t, playerState = twoPlayer b\<rparr>"

definition restoreCell :: "gridCell \<Rightarrow> gridCell \<Rightarrow> gridCell" where
  "restoreCell saved c = c\<lparr>svgLayout := svgLayout saved, direction := direction saved, dot := dot saved\<rparr>"

definition restorePlayer :: "player list \<Rightarrow> player \<Rightarrow> player" where
  "restorePlayer saved p =
     (case List.find (\<lambda>q. pid q = pid p) saved of
        None \<Rightarrow> p
      | Some savedPlayer \<Rightarrow>
          set_vault (vault savedPlayer)
            (set_safetyTower (safetyTower savedPlayer)
               (p\<lparr>turn := turn savedPlayer, lastHorizontal := lastHorizontal savedPlayer\<rparr>)))"

text \<open>
  \<^verbatim>\<open>undoMove(loggedMove)\<close> addresses the two cells as \<^verbatim>\<open>this.cells[id]\<close> with the ids of the
  logged copies; an id outside the array gives \<^verbatim>\<open>undefined\<close>, whose property write raises.
\<close>

definition undoMove :: "boardState \<Rightarrow> move \<Rightarrow> error + boardState" where
  "undoMove b lm =
     (let srcIndex = cell_id (srcCell lm); tgtIndex = cell_id (tgtCell lm) in
      if srcIndex < 0 \<or> srcIndex \<ge> int (length (cells b)) then Inl TypeError
      else
        let cs1 = (cells b)[nat srcIndex := restoreCell (srcCell lm) (cells b ! nat srcIndex)] in
        if tgtIndex < 0 \<or> tgtIndex \<ge> int (length (cells b)) then Inl TypeError
        else
          let cs2 = cs1[nat tgtIndex := restoreCell (tgtCell lm) (cs1 ! nat tgtIndex)] in
          Inr (b\<lparr>cells := cs2, twoPlayer := map (restorePlayer (playerState lm)) (twoPlayer b)\<rparr>))"

section \<open>MinimaxAB.js\<close>

text \<open>
  Scores are JavaScript numbers: the heuristic values, and \<^verbatim>\<open>Infinity\<close> and \<^verbatim>\<open>-Infinity\<close> for
  a certain win and loss. The finite ones are modelled as exact reals (the rounding of
  floating point arithmetic is not modelled).
\<close>

datatype score = NegInf | Fin real | PosInf

fun score_le :: "score \<Rightarrow> score \<Rightarrow> bool" where
  "score_le NegInf _ = True"
| "score_le _ PosInf = True"
| "score_le (Fin x) (Fin y) = (x \<le> y)"
| "score_le _ _ = False"

instantiation score :: linorder
begin

definition less_eq_score :: "score \<Rightarrow> score \<Rightarrow> bool" where
  "less_eq_score a b = score_le a b"

definition less_score :: "score \<Rightarrow> score \<Rightarrow> bool" where
  "less_score a b = (score_le a b \<and> \<not> score_le b a)"

instance
proof
  fix x y z :: score
  show "(x < y) = (x \<le> y \<and> \<not> y \<le> x)" by (simp add: less_score_def less_eq_score_def)
  show "x \<le> x" by (cases x) (simp_all add: less_eq_score_def)
  show "x \<le> y \<Longrightarrow> y \<le> z \<Longrightarrow> x \<le> z"
    by (cases x; cases y; cases z) (simp_all add: less_eq_score_def)
  show "x \<le> y \<Longrightarrow> y \<le> x \<Longrightarrow> x = y"
    by (cases x; cases y) (simp_all add: less_eq_score_def)
  show "x \<le> y \<or> y \<le> x"
    by (cases x; cases y) (auto simp: less_eq_score_def)
qed

end

text \<open>\<^verbatim>\<open>Math.round\<close>: the nearest integer, a tie going up.\<close>

definition mathRound :: "real \<Rightarrow> real" where
  "mathRound x = of_int \<lfloor>x + 1 / 2\<rfloor>"

text \<open>The accumulators of the evaluation loop over the cells.\<close>

record evalAcc =
  botTowers :: int
  userTowers :: int
  botTowerSafetyWeight :: real
  userTowerSafetyWeight :: real
  botTowerTotalSafetyDistance :: int
  userTowerTotalSafetyDistance :: int

text \<open>The \<^verbatim>\<open>switch (rowDistance)\<close> with its five cases and the throwing default.\<close>

definition distanceWeight :: "settings \<Rightarrow> int \<Rightarrow> error + real" where
  "distanceWeight cfg rowDistance =
     (if rowDistance = 1 then Inr (weightRowDistance1 cfg)
      else if rowDistance = 2 then Inr (weightRowDistance2 cfg)
      else if rowDistance = 3 then Inr (weightRowDistance3 cfg)
      else if rowDistance = 4 then Inr (weightRowDistance4 cfg)
      else if rowDistance = 5 then Inr (weightRowDistance5 cfg)
      else Inl InvalidState)"

definition evalBot :: "settings \<Rightarrow> player_id \<Rightarrow> gridCell \<Rightarrow> evalAcc \<Rightarrow> error + evalAcc" where
  "evalBot cfg botId cell acc =
     (if atLast (svgLayout cell) = Some botId then
        (let acc1 = acc\<lparr>botTowers := botTowers acc + 1\<rparr> in
         if safetyZone cfg > 0 \<and> dot cell = True then
           (let rowDistance = 5 - row cell;
                acc2 = acc1\<lparr>botTowerTotalSafetyDistance := botTowerTotalSafetyDistance acc1 + rowDistance\<rparr>
            in case distanceWeight cfg rowDistance of
                 Inl e \<Rightarrow> Inl e
               | Inr w \<Rightarrow> Inr (acc2\<lparr>botTowerSafetyWeight := botTowerSafetyWeight acc2 + w\<rparr>))
         else Inr acc1)
      else Inr acc)"

definition evalUser :: "settings \<Rightarrow> player_id \<Rightarrow> gridCell \<Rightarrow> evalAcc \<Rightarrow> error + evalAcc" where
  "evalUser cfg userId cell acc =
     (if atLast (svgLayout cell) = Some userId then
        (let acc1 = acc\<lparr>userTowers := userTowers acc + 1\<rparr> in
         if safetyZone cfg > 0 \<and> dot cell = True then
           (let rowDistance = row cell;
                acc2 = acc1\<lparr>userTowerTotalSafetyDistance := userTowerTotalSafetyDistance acc1 + rowDistance\<rparr>
            in case distanceWeight cfg rowDistance of
                 Inl e \<Rightarrow> Inl e
               | Inr w \<Rightarrow> Inr (acc2\<lparr>userTowerSafetyWeight := userTowerSafetyWeight acc2 + w\<rparr>))
         else Inr acc1)
      else Inr acc)"

text \<open>The body of \<^verbatim>\<open>boardState.cells.forEach\<close>, and the loop; a throw ends it.\<close>

fun evalCells :: "settings \<Rightarrow> player_id \<Rightarrow> player_id \<Rightarrow> gridCell list \<Rightarrow> evalAcc \<Rightarrow> error + evalAcc" where
  "evalCells cfg botId userId [] acc = Inr acc"
| "evalCells cfg botId userId (cell # rest) acc =
     (case evalBot cfg botId cell acc of
        Inl e \<Rightarrow> Inl e
      | Inr acc1 \<Rightarrow>
          (case evalUser cfg userId cell acc1 of
             Inl e \<Rightarrow> Inl e
           | Inr acc2 \<Rightarrow> evalCells cfg botId userId rest acc2))"

definition heuristicScore :: "settings \<Rightarrow> player \<Rightarrow> player \<Rightarrow> evalAcc \<Rightarrow> real" where
  "heuristicScore cfg playerBot playerUser acc =
     (let score0 = 0;
          score1 = score0 + (of_int (botTowers acc) - conqueredOpponentWeight cfg * of_int (userTowers acc))
                            * conqueredTotalWeight cfg;
          score2 = (if safetyZone cfg > 0 then
                      (let s = score1 + mathRound ((botTowerSafetyWeight acc
                                                    - proximityOpponentWeight cfg * userTowerSafetyWeight acc)
                                                   * proximityTotalWeight cfg);
                           userD = (if userTowerTotalSafetyDistance acc > 4 then 0 else 1);
                           botD = (if botTowerTotalSafetyDistance acc > 4 then 0 else 1)
                       in s + (botD - userD * proximityOpponentWeight cfg)
                              * safetyZoneTotalDistance cfg * proximityTotalWeight cfg)
                    else score1);
          score3 = (if materialOpponent cfg > 0 then
                      score2 + of_int (opponent (vault playerBot) - opponent (vault playerUser))
                               * accountedTotalWeight cfg
                    else score2)
      in score3)"

text \<open>
  \<^verbatim>\<open>getTerminalNodeState(boardState, depth)\<close> with the cached settings as a parameter. The
  result is the returned score (\<open>None\<close> for \<^verbatim>\<open>null\<close>) and the board, on which \<^verbatim>\<open>checkWin\<close>
  may have written a \<^verbatim>\<open>winner\<close> flag. A missing bot or user player reaches \<^verbatim>\<open>checkWin\<close> as
  \<^verbatim>\<open>undefined\<close>, whose first property read raises.
\<close>

definition getTerminalNodeState :: "boardState \<Rightarrow> int \<Rightarrow> settings \<Rightarrow> error + (score option \<times> boardState)" where
  "getTerminalNodeState b d cfg =
     (let playerBot = findIdx (\<lambda>p. isMaximizing p = True) (twoPlayer b);
          playerUser = findIdx (\<lambda>p. isMaximizing p = False) (twoPlayer b)
      in case playerBot of
           None \<Rightarrow> Inl TypeError
         | Some bi \<Rightarrow>
            (case checkWin b bi cfg of
               Inl e \<Rightarrow> Inl e
             | Inr (True, b1) \<Rightarrow> Inr (Some PosInf, b1)
             | Inr (False, b1) \<Rightarrow>
                (case playerUser of
                   None \<Rightarrow> Inl TypeError
                 | Some ui \<Rightarrow>
                    (case checkWin b1 ui cfg of
                       Inl e \<Rightarrow> Inl e
                     | Inr (True, b2) \<Rightarrow> Inr (Some NegInf, b2)
                     | Inr (False, b2) \<Rightarrow>
                        if d = depth cfg then
                          (case evalCells cfg (pid (twoPlayer b2 ! bi)) (pid (twoPlayer b2 ! ui)) (cells b2)
                                  \<lparr>botTowers = 0, userTowers = 0, botTowerSafetyWeight = 0,
                                   userTowerSafetyWeight = 0, botTowerTotalSafetyDistance = 0,
                                   userTowerTotalSafetyDistance = 0\<rparr> of
                             Inl e \<Rightarrow> Inl e
                           | Inr acc \<Rightarrow>
                               Inr (Some (Fin (heuristicScore cfg (twoPlayer b2 ! bi) (twoPlayer b2 ! ui) acc)), b2))
                        else Inr (None, b2)))))"

text \<open>
  \<^verbatim>\<open>minimax(boardState, depth, alpha, beta)\<close>. The recursion of the source ends at a win or
  at \<^verbatim>\<open>depth === settings.depth\<close> only, so the model counts the nested calls down from a
  fuel and returns \<open>None\<close> when it runs out. A result is \<open>Inl\<close> for a throw and \<open>Inr\<close> for
  the returned score with the board as the call leaves it. The two \<^verbatim>\<open>for\<close> loops are
  \<open>maxLoop\<close> and \<open>minLoop\<close>; their moves are pairs of positions in \<^verbatim>\<open>boardState.cells\<close>, and
  their first argument is the recursive call \<^verbatim>\<open>minimax(boardState, depth + 1, alpha, beta)\<close>.
\<close>

type_synonym search = "boardState \<Rightarrow> score \<Rightarrow> score \<Rightarrow> (error + score \<times> boardState) option"

fun maxLoop :: "search \<Rightarrow> settings \<Rightarrow> boardState \<Rightarrow> score \<Rightarrow> score \<Rightarrow> (nat \<times> nat) list \<Rightarrow> score
                \<Rightarrow> (error + score \<times> boardState) option" where
  "maxLoop rec cfg b alpha beta [] max_eval = Some (Inr (max_eval, b))"
| "maxLoop rec cfg b alpha beta (mv # rest) max_eval =
     (let loggedMove = logMove b (fst mv) (snd mv) in
      case applyMoveAndTurn b (fst mv) (snd mv) (maxStackSize cfg) of
        Inl e \<Rightarrow> Some (Inl e)
      | Inr b1 \<Rightarrow>
         (case rec b1 alpha beta of
            None \<Rightarrow> None
          | Some (Inl e) \<Rightarrow> Some (Inl e)
          | Some (Inr (evaluate, b2)) \<Rightarrow>
             (case undoMove b2 loggedMove of
                Inl e \<Rightarrow> Some (Inl e)
              | Inr b3 \<Rightarrow>
                 (let max_eval1 = max max_eval evaluate;
                      alpha1 = max alpha max_eval1
                  in if beta \<le> alpha1 then Some (Inr (max_eval1, b3))
                     else maxLoop rec cfg b3 alpha1 beta rest max_eval1))))"

fun minLoop :: "search \<Rightarrow> settings \<Rightarrow> boardState \<Rightarrow> score \<Rightarrow> score \<Rightarrow> (nat \<times> nat) list \<Rightarrow> score
                \<Rightarrow> (error + score \<times> boardState) option" where
  "minLoop rec cfg b alpha beta [] min_eval = Some (Inr (min_eval, b))"
| "minLoop rec cfg b alpha beta (mv # rest) min_eval =
     (let loggedMove = logMove b (fst mv) (snd mv) in
      case applyMoveAndTurn b (fst mv) (snd mv) (maxStackSize cfg) of
        Inl e \<Rightarrow> Some (Inl e)
      | Inr b1 \<Rightarrow>
         (case rec b1 alpha beta of
            None \<Rightarrow> None
          | Some (Inl e) \<Rightarrow> Some (Inl e)
          | Some (Inr (evaluate, b2)) \<Rightarrow>
             (case undoMove b2 loggedMove of
                Inl e \<Rightarrow> Some (Inl e)
              | Inr b3 \<Rightarrow>
                 (let min_eval1 = min min_eval evaluate;
                      beta1 = min beta min_eval1
                  in if beta1 \<le> alpha then Some (Inr (min_eval1, b3))
                     else minLoop rec cfg b3 alpha beta1 rest min_eval1))))"

primrec minimax :: "nat \<Rightarrow> settings \<Rightarrow> boardState \<Rightarrow> int \<Rightarrow> score \<Rightarrow> score \<Rightarrow> (error + score \<times> boardState) option" where
  "minimax 0 cfg b d alpha beta = None"
| "minimax (Suc n) cfg b d alpha beta =
     (let currentPlayer = findIdx (\<lambda>p. turn p = True) (twoPlayer b) in
      case getTerminalNodeState b d cfg of
        Inl e \<Rightarrow> Some (Inl e)
      | Inr (Some evaluation, b1) \<Rightarrow> Some (Inr (evaluation, b1))
      | Inr (None, b1) \<Rightarrow>
         (case currentPlayer of
            None \<Rightarrow> Some (Inl TypeError)
          | Some i \<Rightarrow>
              if isMaximizing (twoPlayer b1 ! i) = True
              then maxLoop (\<lambda>b' a' b''. minimax n cfg b' (d + 1) a' b'') cfg b1 alpha beta
                           (getAllPossibleMoves b1 (twoPlayer b1 ! i)) NegInf
              else minLoop (\<lambda>b' a' b''. minimax n cfg b' (d + 1) a' b'') cfg b1 alpha beta
                           (getAllPossibleMoves b1 (twoPlayer b1 ! i)) PosInf))"

text \<open>
  \<^verbatim>\<open>findBestMove(boardState, settings)\<close>: the loop over the moves of the player to move,
  then the fallback to the first move when no score was above \<^verbatim>\<open>-Infinity\<close>.
\<close>

fun bestLoop :: "nat \<Rightarrow> settings \<Rightarrow> boardState \<Rightarrow> (nat \<times> nat) list \<Rightarrow> score \<Rightarrow> (nat \<times> nat) option
                 \<Rightarrow> (error + (nat \<times> nat) option \<times> boardState) option" where
  "bestLoop n cfg b [] best_score best_move = Some (Inr (best_move, b))"
| "bestLoop n cfg b (mv # rest) best_score best_move =
     (let loggedMove = logMove b (fst mv) (snd mv) in
      case applyMoveAndTurn b (fst mv) (snd mv) (maxStackSize cfg) of
        Inl e \<Rightarrow> Some (Inl e)
      | Inr b1 \<Rightarrow>
         (case minimax n cfg b1 0 NegInf PosInf of
            None \<Rightarrow> None
          | Some (Inl e) \<Rightarrow> Some (Inl e)
          | Some (Inr (score_for_this_move, b2)) \<Rightarrow>
             (case undoMove b2 loggedMove of
                Inl e \<Rightarrow> Some (Inl e)
              | Inr b3 \<Rightarrow>
                 if score_for_this_move > best_score
                 then bestLoop n cfg b3 rest score_for_this_move (Some mv)
                 else bestLoop n cfg b3 rest best_score best_move)))"

definition findBestMove :: "nat \<Rightarrow> boardState \<Rightarrow> settings \<Rightarrow> (error + nat \<times> nat) option" where
  "findBestMove n b cfg =
     (case findIdx (\<lambda>p. turn p = True) (twoPlayer b) of
        None \<Rightarrow> Some (Inl TypeError)
      | Some i \<Rightarrow>
          if isMaximizing (twoPlayer b ! i) = False then Some (Inl InvalidInvocation)
          else
            let possibleMoves = getAllPossibleMoves b (twoPlayer b ! i) in
            if length possibleMoves = 0 then Some (Inl NoLegalMoves)
            else
              (case bestLoop n cfg b possibleMoves NegInf None of
                 None \<Rightarrow> None
               | Some (Inl e) \<Rightarrow> Some (Inl e)
               | Some (Inr (best_move, b')) \<Rightarrow>
                   Some (Inr (case best_move of None \<Rightarrow> possibleMoves ! 0 | Some mv \<Rightarrow> mv))))"

section \<open>The board of the game (createBoard, createPlayer)\<close>

text \<open>
  The data model of the specification: the 36 cells of the 6 by 6 grid in row-major order,
  so that the cell with id \<open>row * 6 + column\<close> is the element of that index in
  \<^verbatim>\<open>boardState.cells\<close>. \<^verbatim>\<open>createBoard\<close> builds the array this way.
\<close>

definition wfCells :: "boardState \<Rightarrow> bool" where
  "wfCells b = (map (\<lambda>c. (row c, column c)) (cells b) = map (\<lambda>i. (int i div 6, int i mod 6)) [0 ..< 36])"

text \<open>
  The players of the data model: distinct ids, and the counters within the cap of six that
  the setters of \<^verbatim>\<open>Player\<close> enforce.
\<close>

definition wfPlayers :: "boardState \<Rightarrow> bool" where
  "wfPlayers b =
     (distinct (map pid (twoPlayer b)) \<and>
      list_all (\<lambda>p. safetyTower p \<le> 6 \<and> self (vault p) \<le> 6 \<and> opponent (vault p) \<le> 6) (twoPlayer b))"

text \<open>The start position that \<^verbatim>\<open>createBoard\<close> and \<^verbatim>\<open>createPlayer\<close> build.\<close>

definition createBoard :: boardState where
  "createBoard =
     \<lparr>cells = map (\<lambda>index.
                let column = int index mod 6;
                    row = (int index - column) div 6
                in \<lparr>row = row, column = column,
                    svgLayout = (if row = 0 \<or> row = 1 then [USER] else if row = 6 - 1 \<or> row = 6 - 2 then [BOT] else []),
                    direction = (if row = 0 \<or> row = 1 then 1 else if row = 6 - 1 \<or> row = 6 - 2 then - 1 else 0),
                    dot = False\<rparr>) [0 ..< 36],
      twoPlayer = [\<lparr>pid = BOT, isMaximizing = True, turn = False, lastHorizontal = False,
                    safetyTower = 0, vault = \<lparr>self = 0, opponent = 0\<rparr>, winner = False\<rparr>,
                   \<lparr>pid = USER, isMaximizing = False, turn = True, lastHorizontal = False,
                    safetyTower = 0, vault = \<lparr>self = 0, opponent = 0\<rparr>, winner = False\<rparr>]\<rparr>"

text \<open>The factory defaults of \<^verbatim>\<open>Settings\<close> (ConfigState.js).\<close>

definition factorySettings :: settings where
  "factorySettings =
     \<lparr>safetyZone = 1, materialOpponent = 6, maxStackSize = 3, depth = 5,
      conqueredTotalWeight = 70, conqueredOpponentWeight = 1,
      weightRowDistance1 = 10, weightRowDistance2 = 10, weightRowDistance3 = 8,
      weightRowDistance4 = 7, weightRowDistance5 = 7, safetyZoneTotalDistance = 8,
      proximityOpponentWeight = 2, proximityTotalWeight = 10,
      accountedTotalWeight = 40\<rparr>"

section \<open>Move generation as the specification words it\<close>

definition onBoard :: "int \<times> int \<Rightarrow> bool" where
  "onBoard rc = (0 \<le> fst rc \<and> fst rc < 6 \<and> 0 \<le> snd rc \<and> snd rc < 6)"

definition cellIndex :: "int \<times> int \<Rightarrow> nat" where
  "cellIndex rc = nat (fst rc * 6 + snd rc)"

text \<open>
  The candidate coordinates in the order forward-1, forward-2, left-1, left-2, right-1,
  right-2, the lateral ones with the column wrapped modulo 6 and only without the lock.
\<close>

definition candidateCoords :: "gridCell \<Rightarrow> player \<Rightarrow> (int \<times> int) list" where
  "candidateCoords c p =
     [(row c + direction c, column c), (row c + 2 * direction c, column c)]
     @ (if lastHorizontal p then []
        else [(row c, (column c - 1) mod 6), (row c, (column c - 2) mod 6),
              (row c, (column c + 1) mod 6), (row c, (column c + 2) mod 6)])"

text \<open>
  A candidate is legal iff it exists and is empty or topped by another owner than the
  source.
\<close>

definition legalTarget :: "boardState \<Rightarrow> gridCell \<Rightarrow> int \<times> int \<Rightarrow> bool" where
  "legalTarget b c rc =
     (onBoard rc \<and>
      (svgLayout (cells b ! cellIndex rc) = [] \<or> last (svgLayout (cells b ! cellIndex rc)) \<noteq> last (svgLayout c)))"

section \<open>Stacking as the specification words it\<close>

text \<open>
  The number of overflows when \<open>ls\<close> stones are pushed one by one on a target of \<open>lt\<close>
  stones that may hold \<open>m\<close>: every push that leaves more than \<open>m\<close> stones.
\<close>

definition overflowCount :: "nat \<Rightarrow> nat \<Rightarrow> int \<Rightarrow> nat" where
  "overflowCount lt ls m = min ls (nat (int lt + int ls - m))"

text \<open>
  The mover's vault after the stones \<open>removed\<close> were taken from the bottom: one credit
  per stone, to \<open>self\<close> for an own stone and to \<open>opponent\<close> otherwise, each counter
  capped at 6.
\<close>

definition credited :: "player \<Rightarrow> player_id list \<Rightarrow> player" where
  "credited p removed =
     p\<lparr>vault := \<lparr>self = min 6 (self (vault p) + int (length (filter (\<lambda>x. x = pid p) removed))),
                  opponent = min 6 (opponent (vault p) + int (length (filter (\<lambda>x. x \<noteq> pid p) removed)))\<rparr>\<rparr>"

definition userPlayer :: player where
  "userPlayer = \<lparr>pid = USER, isMaximizing = False, turn = True, lastHorizontal = False,
                 safetyTower = 0, vault = \<lparr>self = 0, opponent = 0\<rparr>, winner = False\<rparr>"

definition botPlayer :: player where
  "botPlayer = \<lparr>pid = BOT, isMaximizing = True, turn = False, lastHorizontal = False,
                safetyTower = 0, vault = \<lparr>self = 0, opponent = 0\<rparr>, winner = False\<rparr>"

text \<open>Positions for examples: the empty grid, and a tower put on one of its cells.\<close>

definition emptyBoard :: "player list \<Rightarrow> boardState" where
  "emptyBoard ps =
     \<lparr>cells = map (\<lambda>index. \<lparr>row = int index div 6, column = int index mod 6,
                             svgLayout = [], direction = 0, dot = False\<rparr>) [0 ..< 36],
      twoPlayer = ps\<rparr>"

definition putTower :: "nat \<Rightarrow> player_id list \<Rightarrow> int \<Rightarrow> bool \<Rightarrow> boardState \<Rightarrow> boardState" where
  "putTower i stack dir d b =
     b\<lparr>cells := (cells b)[i := (cells b ! i)\<lparr>svgLayout := stack, direction := dir, dot := d\<rparr>]\<rparr>"

section \<open>Reversal and capture rows\<close>

text \<open>
  The user starts on rows 0 and 1 and moves towards row 5; the bot starts on rows 5 and 4
  and moves towards row 0.
\<close>

definition farRow :: "player_id \<Rightarrow> int" where
  "farRow who = (case who of USER \<Rightarrow> 5 | BOT \<Rightarrow> 0)"

definition originRow :: "player_id \<Rightarrow> int" where
  "originRow who = (case who of USER \<Rightarrow> 0 | BOT \<Rightarrow> 5)"

section \<open>The effect of a move, case by case\<close>

text \<open>
  The four conditions of \<^verbatim>\<open>playMove\<close>, read on the source cell before the move: a tower
  is captured when it is already reversed and lands on its owner's origin row, and is
  reversed when it is not yet reversed and lands on the far row.
\<close>

definition captures :: "gridCell \<Rightarrow> gridCell \<Rightarrow> bool" where
  "captures src tgt =
     (dot src \<and> ((atLast (svgLayout src) = Some USER \<and> row tgt = 0)
                \<or> (atLast (svgLayout src) = Some BOT \<and> row tgt = 5)))"

definition reverses :: "gridCell \<Rightarrow> gridCell \<Rightarrow> bool" where
  "reverses src tgt =
     (\<not> dot src \<and> ((atLast (svgLayout src) = Some USER \<and> row tgt = 5)
                  \<or> (atLast (svgLayout src) = Some BOT \<and> row tgt = 0)))"

definition landed :: "gridCell \<Rightarrow> gridCell \<Rightarrow> player_id list \<Rightarrow> gridCell" where
  "landed src tgt st =
     (if captures src tgt then tgt\<lparr>svgLayout := [], direction := 0, dot := False\<rparr>
      else if reverses src tgt then tgt\<lparr>svgLayout := st, direction := - direction src, dot := True\<rparr>
      else tgt\<lparr>svgLayout := st, direction := direction src, dot := dot src\<rparr>)"

definition cleared :: "gridCell \<Rightarrow> gridCell" where
  "cleared c = c\<lparr>svgLayout := [], direction := 0, dot := False\<rparr>"

definition moved :: "gridCell \<Rightarrow> gridCell \<Rightarrow> player \<Rightarrow> player" where
  "moved src tgt p =
     p\<lparr>safetyTower := (if captures src tgt then min 6 (safetyTower p + 1) else safetyTower p),
       lastHorizontal := (row tgt = row src)\<rparr>"

text \<open>Two positions with the user to move: a tower one step before the far row, and a reversed tower one step before home.\<close>

definition reversalBoard :: boardState where
  "reversalBoard = putTower 24 [USER] 1 False (putTower 35 [BOT] (- 1) False (emptyBoard [botPlayer, userPlayer]))"

definition captureBoard :: boardState where
  "captureBoard = putTower 6 [USER] (- 1) True (putTower 35 [BOT] (- 1) False (emptyBoard [botPlayer, userPlayer]))"

section \<open>The win condition as the specification words it\<close>

definition hasTower :: "boardState \<Rightarrow> player_id \<Rightarrow> bool" where
  "hasTower b who = list_ex (\<lambda>c. atLast (svgLayout c) = Some who) (cells b)"

text \<open>
  The player wins by the vault threshold (when it is switched on), by the secured towers,
  or, only when it is not the player's turn, when the opponent or the player itself has no
  tower left on the board.
\<close>

definition winCondition :: "boardState \<Rightarrow> player \<Rightarrow> player \<Rightarrow> settings \<Rightarrow> bool" where
  "winCondition b p opp cfg =
     ((materialOpponent cfg > 0 \<and> opponent (vault p) \<ge> materialOpponent cfg)
      \<or> safetyTower p \<ge> safetyZone cfg
      \<or> (turn p = False \<and> (\<not> hasTower b (pid opp) \<or> \<not> hasTower b (pid p))))"

definition markWinner :: "nat \<Rightarrow> boardState \<Rightarrow> boardState" where
  "markWinner i b = b\<lparr>twoPlayer := (twoPlayer b)[i := (twoPlayer b ! i)\<lparr>winner := True\<rparr>]\<rparr>"

section \<open>Boards up to the winner flags\<close>

text \<open>
  \<^verbatim>\<open>checkWin\<close> writes the \<^verbatim>\<open>winner\<close> flag of a player and nothing reads it during a search.
  \<open>eraseWinner\<close> forgets the two flags: two boards with the same image agree on all cells
  and on every other field of both players.
\<close>

definition eraseWinner :: "boardState \<Rightarrow> boardState" where
  "eraseWinner b = b\<lparr>twoPlayer := map (\<lambda>p. p\<lparr>winner := False\<rparr>) (twoPlayer b)\<rparr>"

text \<open>A position with room for a lateral move of the user, who is to move.\<close>

definition lockBoard :: boardState where
  "lockBoard = putTower 6 [USER] 1 False (putTower 35 [BOT] (- 1) False (emptyBoard [botPlayer, userPlayer]))"

section \<open>The reference search: full-width minimax without pruning\<close>

text \<open>
  The reference implementation against which the pruned search is compared. It has no
  window and visits every move; it works on values, each child position being computed
  from the position of the node. A throw of the rules or of the evaluation is \<open>Inl\<close>, and
  \<open>None\<close> is the end of the fuel, as in \<open>minimax\<close>.
\<close>

fun fullMax :: "(boardState \<Rightarrow> (error + score) option) \<Rightarrow> settings \<Rightarrow> boardState \<Rightarrow> (nat \<times> nat) list \<Rightarrow> score
                \<Rightarrow> (error + score) option" where
  "fullMax rec cfg b [] best = Some (Inr best)"
| "fullMax rec cfg b (mv # rest) best =
     (case applyMoveAndTurn b (fst mv) (snd mv) (maxStackSize cfg) of
        Inl e \<Rightarrow> Some (Inl e)
      | Inr b1 \<Rightarrow>
         (case rec b1 of
            None \<Rightarrow> None
          | Some (Inl e) \<Rightarrow> Some (Inl e)
          | Some (Inr v) \<Rightarrow> fullMax rec cfg b rest (max best v)))"

fun fullMin :: "(boardState \<Rightarrow> (error + score) option) \<Rightarrow> settings \<Rightarrow> boardState \<Rightarrow> (nat \<times> nat) list \<Rightarrow> score
                \<Rightarrow> (error + score) option" where
  "fullMin rec cfg b [] best = Some (Inr best)"
| "fullMin rec cfg b (mv # rest) best =
     (case applyMoveAndTurn b (fst mv) (snd mv) (maxStackSize cfg) of
        Inl e \<Rightarrow> Some (Inl e)
      | Inr b1 \<Rightarrow>
         (case rec b1 of
            None \<Rightarrow> None
          | Some (Inl e) \<Rightarrow> Some (Inl e)
          | Some (Inr v) \<Rightarrow> fullMin rec cfg b rest (min best v)))"

primrec fullMinimax :: "nat \<Rightarrow> settings \<Rightarrow> boardState \<Rightarrow> int \<Rightarrow> (error + score) option" where
  "fullMinimax 0 cfg b d = None"
| "fullMinimax (Suc n) cfg b d =
     (case getTerminalNodeState b d cfg of
        Inl e \<Rightarrow> Some (Inl e)
      | Inr (Some evaluation, b1) \<Rightarrow> Some (Inr evaluation)
      | Inr (None, b1) \<Rightarrow>
         (case findIdx (\<lambda>p. turn p = True) (twoPlayer b) of
            None \<Rightarrow> Some (Inl TypeError)
          | Some i \<Rightarrow>
              if isMaximizing (twoPlayer b ! i) = True
              then fullMax (\<lambda>b'. fullMinimax n cfg b' (d + 1)) cfg b (getAllPossibleMoves b (twoPlayer b ! i)) NegInf
              else fullMin (\<lambda>b'. fullMinimax n cfg b' (d + 1)) cfg b (getAllPossibleMoves b (twoPlayer b ! i)) PosInf))"

text \<open>
  What a search with the window from \<open>a\<close> to \<open>b\<close> promises about its result \<open>ab\<close> when the
  value is \<open>v\<close>: exact inside the window, a bound on the right side outside.
\<close>

definition window :: "score \<Rightarrow> score \<Rightarrow> score \<Rightarrow> score \<Rightarrow> bool" where
  "window a b v ab = ((ab \<le> a \<longrightarrow> v \<le> ab) \<and> (a < ab \<and> ab < b \<longrightarrow> ab = v) \<and> (b \<le> ab \<longrightarrow> ab \<le> v))"

text \<open>The value of a move for the mover: the value of the position after it, searched from depth 0.\<close>

definition moveValue :: "nat \<Rightarrow> settings \<Rightarrow> boardState \<Rightarrow> nat \<times> nat \<Rightarrow> (error + score) option" where
  "moveValue n cfg b mv =
     (case applyMoveAndTurn b (fst mv) (snd mv) (maxStackSize cfg) of
        Inl e \<Rightarrow> Some (Inl e)
      | Inr b1 \<Rightarrow> fullMinimax n cfg b1 0)"

text \<open>
  The first of the moves whose score no other score exceeds: the maximum, and among equal
  scores the first in generation order.
\<close>

definition firstBest :: "((nat \<times> nat) \<times> score) list \<Rightarrow> (nat \<times> nat) option" where
  "firstBest xs = map_option fst (List.find (\<lambda>x. list_all (\<lambda>y. snd y \<le> snd x) xs) xs)"

text \<open>A position in which the user, to move, wins by bringing the reversed tower home.\<close>

definition homeBoard :: boardState where
  "homeBoard = putTower 6 [USER] (- 1) True (putTower 35 [BOT] (- 1) False (emptyBoard [botPlayer, userPlayer]))"

text \<open>
  The settings for which the numbers of the model are the numbers of the code: the weights
  are whole numbers of magnitude at most 1000. The evaluation then stays within the integers
  below \<open>2 ^ 53\<close>, where the double arithmetic of the code is exact and \<^verbatim>\<open>Math.round\<close>
  changes nothing; neither an overflow nor \<^verbatim>\<open>NaN\<close> arises. The factory settings are of this
  kind.
\<close>

definition wholeWeights :: "settings \<Rightarrow> bool" where
  "wholeWeights cfg =
     list_all (\<lambda>w. w = of_int \<lfloor>w\<rfloor> \<and> \<bar>w\<bar> \<le> 1000)
       [conqueredTotalWeight cfg, conqueredOpponentWeight cfg,
        weightRowDistance1 cfg, weightRowDistance2 cfg, weightRowDistance3 cfg,
        weightRowDistance4 cfg, weightRowDistance5 cfg, safetyZoneTotalDistance cfg,
        proximityOpponentWeight cfg, proximityTotalWeight cfg, accountedTotalWeight cfg]"

text \<open>
  The selection of \<^verbatim>\<open>findBestMove\<close> on the scores alone: the strict comparison against the
  best score so far, the later move winning only with a greater score.
\<close>

fun pickBest :: "score \<Rightarrow> (nat \<times> nat) option \<Rightarrow> ((nat \<times> nat) \<times> score) list \<Rightarrow> (nat \<times> nat) option" where
  "pickBest best_score best_move [] = best_move"
| "pickBest best_score best_move (x # xs) =
     (if snd x > best_score then pickBest (snd x) (Some (fst x)) xs
      else pickBest best_score best_move xs)"

text \<open>A position with the bot to move, one tower each.\<close>

definition replyBoard :: boardState where
  "replyBoard = putTower 6 [USER] 1 False (putTower 35 [BOT] (- 1) False
                  (emptyBoard [botPlayer\<lparr>turn := True\<rparr>, userPlayer\<lparr>turn := False\<rparr>]))"

section \<open>Properties\<close>

subsection \<open>Arrays and the grid\<close>

lemma findIdx_None: "findIdx P xs = None \<longleftrightarrow> (\<forall>x \<in> set xs. \<not> P x)"
  by (induction xs) auto

lemma findIdx_Some:
  "findIdx P xs = Some i \<longleftrightarrow> i < length xs \<and> P (xs ! i) \<and> (\<forall>j < i. \<not> P (xs ! j))"
proof (induction xs arbitrary: i)
  case Nil
  then show ?case by simp
next
  case (Cons x xs)
  show ?case
  proof (cases "P x")
    case True
    then show ?thesis by (cases i) auto
  next
    case False
    show ?thesis
    proof (cases i)
      case 0
      with False show ?thesis by auto
    next
      case (Suc k)
      have "(\<forall>j<Suc k. \<not> P ((x # xs) ! j)) \<longleftrightarrow> (\<forall>j<k. \<not> P (xs ! j))"
        using False by (auto simp: less_Suc_eq_0_disj)
      with False Suc Cons.IH[of k] show ?thesis by auto
    qed
  qed
qed

lemma wfCells_length: "wfCells b \<Longrightarrow> length (cells b) = 36"
proof -
  assume "wfCells b"
  then have "map (\<lambda>c. (row c, column c)) (cells b) = map (\<lambda>i. (int i div 6, int i mod 6)) [0 ..< 36]"
    unfolding wfCells_def .
  then have "length (map (\<lambda>c. (row c, column c)) (cells b)) = length (map (\<lambda>i. (int i div 6, int i mod 6)) [0 ..< 36])"
    by (rule arg_cong)
  then show ?thesis by (simp only: length_map length_upt diff_zero)
qed

lemma wfCells_nth:
  assumes "wfCells b" "i < 36"
  shows "row (cells b ! i) = int i div 6" "column (cells b ! i) = int i mod 6"
proof -
  have len: "i < length (cells b)" "i < length [0 ..< (36::nat)]"
    using assms(2) wfCells_length[OF assms(1)] by (simp_all only: length_upt diff_zero)
  have "map (\<lambda>c. (row c, column c)) (cells b) = map (\<lambda>i. (int i div 6, int i mod 6)) [0 ..< 36]"
    using assms(1) unfolding wfCells_def .
  then have "map (\<lambda>c. (row c, column c)) (cells b) ! i = map (\<lambda>i. (int i div 6, int i mod 6)) [0 ..< 36] ! i"
    by (rule arg_cong)
  then have "(row (cells b ! i), column (cells b ! i)) = (int ([0 ..< 36] ! i) div 6, int ([0 ..< 36] ! i) mod 6)"
    by (simp only: nth_map[OF len(1)] nth_map[OF len(2)])
  moreover have "[0 ..< 36] ! i = i" using assms(2) by (simp only: nth_upt add_0)
  ultimately show "row (cells b ! i) = int i div 6" "column (cells b ! i) = int i mod 6"
    by (simp_all only: prod.inject)
qed

lemma neighbor_wf:
  assumes "wfCells b"
  shows "neighbor b r c = (if 0 \<le> r \<and> r < 6 \<and> 0 \<le> c \<and> c < 6 then Some (nat (r * 6 + c)) else None)"
proof (cases "0 \<le> r \<and> r < 6 \<and> 0 \<le> c \<and> c < 6")
  case True
  let ?k = "nat (r * 6 + c)"
  have k: "?k < 36" "int ?k div 6 = r" "int ?k mod 6 = c" using True by auto
  have "findIdx (\<lambda>inst. row inst = r \<and> column inst = c) (cells b) = Some ?k"
    unfolding findIdx_Some
  proof (intro conjI allI impI)
    show "?k < length (cells b)" using k wfCells_length[OF assms] by simp
    show "row (cells b ! ?k) = r" using wfCells_nth[OF assms k(1)] k by simp
    show "column (cells b ! ?k) = c" using wfCells_nth[OF assms k(1)] k by simp
  next
    fix j assume j: "j < ?k"
    then have j36: "j < 36" using k by simp
    show "\<not> (row (cells b ! j) = r \<and> column (cells b ! j) = c)"
    proof
      assume "row (cells b ! j) = r \<and> column (cells b ! j) = c"
      then have "int j div 6 = r" "int j mod 6 = c" using wfCells_nth[OF assms j36] by simp_all
      then have "int j = r * 6 + c" by (metis div_mult_mod_eq)
      with j show False by simp
    qed
  qed
  with True show ?thesis by (simp add: neighbor_def)
next
  case False
  have "findIdx (\<lambda>inst. row inst = r \<and> column inst = c) (cells b) = None"
    unfolding findIdx_None
  proof
    fix x assume "x \<in> set (cells b)"
    then obtain j where j: "j < 36" "x = cells b ! j"
      using wfCells_length[OF assms] by (metis in_set_conv_nth)
    have "row x = int j div 6" "column x = int j mod 6" using wfCells_nth[OF assms j(1)] j(2) by simp_all
    moreover have "0 \<le> int j div 6" "int j div 6 < 6" "0 \<le> int j mod 6" "int j mod 6 < 6" using j(1) by auto
    ultimately show "\<not> (row x = r \<and> column x = c)" using False by auto
  qed
  with False show ?thesis by (simp add: neighbor_def)
qed

lemma candidate_wf:
  assumes "wfCells b" "svgLayout c \<noteq> []"
  shows "candidate b c (neighbor b r k) = map cellIndex (filter (legalTarget b c) [(r, k)])"
  using assms(2) by (auto simp: neighbor_wf[OF assms(1)] candidate_def legalTarget_def onBoard_def cellIndex_def atLast_def)

lemma jsRem_nonneg: "0 \<le> a \<Longrightarrow> jsRem a n = a mod n"
  by (simp add: jsRem_def)

lemma mod6_shift:
  fixes x :: int
  shows "(x + 5) mod 6 = (x - 1) mod 6" "(x + 4) mod 6 = (x - 2) mod 6"
        "(x + 7) mod 6 = (x + 1) mod 6" "(x + 8) mod 6 = (x + 2) mod 6"
proof -
  have e: "x + 5 = x - 1 + 6" "x + 4 = x - 2 + 6" "x + 7 = x + 1 + 6" "x + 8 = x + 2 + 6"
    by linarith+
  show "(x + 5) mod 6 = (x - 1) mod 6" by (simp only: e(1) mod_add_self2)
  show "(x + 4) mod 6 = (x - 2) mod 6" by (simp only: e(2) mod_add_self2)
  show "(x + 7) mod 6 = (x + 1) mod 6" by (simp only: e(3) mod_add_self2)
  show "(x + 8) mod 6 = (x + 2) mod 6" by (simp only: e(4) mod_add_self2)
qed

lemma jsRem_shift:
  assumes "0 \<le> x"
  shows "jsRem (x + 5) 6 = (x - 1) mod 6" "jsRem (x + 4) 6 = (x - 2) mod 6"
        "jsRem (x + 7) 6 = (x + 1) mod 6" "jsRem (x + 8) 6 = (x + 2) mod 6"
proof -
  have "0 \<le> x + 5" "0 \<le> x + 4" "0 \<le> x + 7" "0 \<le> x + 8" using assms by linarith+
  then show "jsRem (x + 5) 6 = (x - 1) mod 6" "jsRem (x + 4) 6 = (x - 2) mod 6"
        "jsRem (x + 7) 6 = (x + 1) mod 6" "jsRem (x + 8) 6 = (x + 2) mod 6"
    by (simp_all only: jsRem_nonneg mod6_shift)
qed

lemma wfCells_createBoard: "wfCells createBoard"
  by (simp add: wfCells_def createBoard_def Let_def o_def minus_mod_eq_mult_div)

lemma wfPlayers_createBoard: "wfPlayers createBoard"
  by (simp add: wfPlayers_def createBoard_def)

subsection \<open>Legal moves\<close>

text \<open>
  C4. On the 6 by 6 board, for a non-empty source cell of the board, \<^verbatim>\<open>getLocalMoves\<close>
  returns exactly the legal ones among the candidates forward-1, forward-2 and, only
  without the lateral lock, left-1, left-2, right-1, right-2 (columns wrapped modulo 6),
  in this order; a candidate is legal iff it is on the board and is empty or topped by
  another owner than the source.
\<close>

theorem getLocalMoves_spec:
  assumes "wfCells b" "c \<in> set (cells b)" "svgLayout c \<noteq> []"
  shows "getLocalMoves c p b = map cellIndex (filter (legalTarget b c) (candidateCoords c p))"
proof -
  obtain j where j: "j < 36" "c = cells b ! j"
    using assms(2) wfCells_length[OF assms(1)] by (metis in_set_conv_nth)
  have col: "0 \<le> column c" using wfCells_nth(2)[OF assms(1) j(1)] j(2) by simp
  show ?thesis
    unfolding getLocalMoves_def candidateCoords_def Let_def jsRem_shift[OF col]
    by (simp add: candidate_wf[OF assms(1,3)])
qed

theorem getLocalMoves_spec_witness:
  "wfCells createBoard \<and> cells createBoard ! 6 \<in> set (cells createBoard)
   \<and> svgLayout (cells createBoard ! 6) \<noteq> []
   \<and> getLocalMoves (cells createBoard ! 6) (twoPlayer createBoard ! 1) createBoard = [12, 18]"
proof -
  have h1: "wfCells createBoard" by (rule wfCells_createBoard)
  have h2: "cells createBoard ! 6 \<in> set (cells createBoard)" by code_simp
  have h3: "svgLayout (cells createBoard ! 6) \<noteq> []" by code_simp
  have "map cellIndex (filter (legalTarget createBoard (cells createBoard ! 6))
          (candidateCoords (cells createBoard ! 6) (twoPlayer createBoard ! 1))) = [12, 18]"
    by code_simp
  with getLocalMoves_spec[OF h1 h2 h3, of "twoPlayer createBoard ! 1"] h1 h2 h3 show ?thesis by simp
qed

subsection \<open>Stacking\<close>

lemma credited_Nil: "self (vault p) \<le> 6 \<Longrightarrow> opponent (vault p) \<le> 6 \<Longrightarrow> credited p [] = p"
  by (simp add: credited_def)

lemma credited_Cons:
  assumes "self (vault p) \<le> 6" "opponent (vault p) \<le> 6"
  shows "credited (set_vault (if x = pid p then \<lparr>self = self (vault p) + 1, opponent = opponent (vault p)\<rparr>
                             else \<lparr>self = self (vault p), opponent = opponent (vault p) + 1\<rparr>) p) xs
         = credited p (x # xs)"
  using assms by (auto simp: credited_def set_vault_def min_def)

lemma set_vault_caps:
  "self (vault (set_vault v p)) \<le> 6" "opponent (vault (set_vault v p)) \<le> 6"
  by (simp_all add: set_vault_def)

lemma stackLoop_closed:
  assumes "self (vault p) \<le> 6" "opponent (vault p) \<le> 6"
  shows "stackLoop src tgt p m =
           (drop (overflowCount (length tgt) (length src) m) (tgt @ src),
            credited p (take (overflowCount (length tgt) (length src) m) (tgt @ src)))"
  using assms
proof (induction src arbitrary: tgt p)
  case Nil
  then show ?case by (simp add: overflowCount_def credited_Nil)
next
  case (Cons x xs)
  show ?case
  proof (cases "int (length (tgt @ [x])) > m")
    case True
    let ?p = "set_vault (if hd (tgt @ [x]) = pid p then \<lparr>self = self (vault p) + 1, opponent = opponent (vault p)\<rparr>
                             else \<lparr>self = self (vault p), opponent = opponent (vault p) + 1\<rparr>) p"
    have k: "overflowCount (length tgt) (length (x # xs)) m = Suc (length xs)"
            "overflowCount (length (tl (tgt @ [x]))) (length xs) m = length xs"
      using True by (simp_all add: overflowCount_def)
    have step: "stackLoop (x # xs) tgt p m = stackLoop xs (tl (tgt @ [x])) ?p m"
      using True by (simp add: Let_def)
    have ih: "stackLoop xs (tl (tgt @ [x])) ?p m =
        (drop (length xs) (tl (tgt @ [x]) @ xs), credited ?p (take (length xs) (tl (tgt @ [x]) @ xs)))"
      using Cons.IH[of ?p "tl (tgt @ [x])"] k(2) set_vault_caps[of _ p] by simp
    have dec: "tgt @ x # xs = hd (tgt @ [x]) # (tl (tgt @ [x]) @ xs)"
      by (cases tgt) simp_all
    have d: "drop (Suc (length xs)) (tgt @ x # xs) = drop (length xs) (tl (tgt @ [x]) @ xs)"
      by (subst dec) simp
    have t: "take (Suc (length xs)) (tgt @ x # xs) = hd (tgt @ [x]) # take (length xs) (tl (tgt @ [x]) @ xs)"
      by (subst dec) simp
    show ?thesis
      unfolding step ih k(1) d t
      using credited_Cons[OF Cons.prems, of "hd (tgt @ [x])"] by simp
  next
    case False
    have k: "overflowCount (length tgt) (length (x # xs)) m = overflowCount (length (tgt @ [x])) (length xs) m"
      using False by (simp add: overflowCount_def)
    have step: "stackLoop (x # xs) tgt p m = stackLoop xs (tgt @ [x]) p m"
      using False by (simp add: Let_def)
    show ?thesis
      unfolding step k using Cons.IH[OF Cons.prems, of "tgt @ [x]"] by simp
  qed
qed

text \<open>
  C5. Stacking a non-empty source on a non-empty target with another top owner pushes the
  source stones in bottom-to-top order; every push that leaves more than \<^verbatim>\<open>maxStackSize\<close>
  stones removes the bottom stone, so the target ends as the merged stack without its
  first \<open>overflowCount\<close> stones, and each removed stone adds exactly one to exactly one
  counter of the mover's vault (\<open>self\<close> for an own stone, \<open>opponent\<close> otherwise), each
  counter capped at 6.
\<close>

theorem stackTowers_overflow:
  assumes "src \<noteq> []" "tgt \<noteq> []" "atLast src \<noteq> atLast tgt"
    and "self (vault p) \<le> 6" "opponent (vault p) \<le> 6"
  shows "stackTowers src tgt (Some p) m =
           Inr (drop (overflowCount (length tgt) (length src) m) (tgt @ src),
                Some (credited p (take (overflowCount (length tgt) (length src) m) (tgt @ src))))"
  using assms(1-3) by (simp add: stackTowers_def stackLoop_closed[OF assms(4,5)])

theorem stackTowers_overflow_witness:
  "[USER] \<noteq> [] \<and> [USER, BOT, BOT] \<noteq> [] \<and> atLast [USER] \<noteq> atLast [USER, BOT, BOT]
   \<and> self (vault userPlayer) \<le> 6 \<and> opponent (vault userPlayer) \<le> 6
   \<and> stackTowers [USER] [USER, BOT, BOT] (Some userPlayer) 3
       = Inr ([BOT, BOT, USER], Some (userPlayer\<lparr>vault := \<lparr>self = 1, opponent = 0\<rparr>\<rparr>))"
proof -
  have h: "[USER] \<noteq> []" "[USER, BOT, BOT] \<noteq> []" "atLast [USER] \<noteq> atLast [USER, BOT, BOT]"
    "self (vault userPlayer) \<le> 6" "opponent (vault userPlayer) \<le> 6"
    by (simp_all add: atLast_def userPlayer_def)
  have k: "overflowCount (length [USER, BOT, BOT]) (length [USER]) 3 = 1"
    by (simp add: overflowCount_def)
  show ?thesis
    using stackTowers_overflow[OF h, of 3] h unfolding k
    by (simp add: credited_def userPlayer_def)
qed

lemma stackLoop_player: "\<exists>v. snd (stackLoop src tgt p m) = p\<lparr>vault := v\<rparr>"
proof (induction src arbitrary: tgt p)
  case Nil
  have "p = p\<lparr>vault := vault p\<rparr>" by simp
  then show ?case by (metis stackLoop.simps(1) snd_conv)
next
  case (Cons x xs)
  show ?case
  proof (cases "int (length (tgt @ [x])) > m")
    case True
    let ?p = "set_vault (if hd (tgt @ [x]) = pid p then \<lparr>self = self (vault p) + 1, opponent = opponent (vault p)\<rparr>
                             else \<lparr>self = self (vault p), opponent = opponent (vault p) + 1\<rparr>) p"
    have step: "stackLoop (x # xs) tgt p m = stackLoop xs (tl (tgt @ [x])) ?p m"
      using True by (simp add: Let_def)
    obtain v where "snd (stackLoop xs (tl (tgt @ [x])) ?p m) = ?p\<lparr>vault := v\<rparr>"
      using Cons.IH by blast
    then have "snd (stackLoop (x # xs) tgt p m) = p\<lparr>vault := v\<rparr>"
      unfolding step by (simp add: set_vault_def)
    then show ?thesis by blast
  next
    case False
    have step: "stackLoop (x # xs) tgt p m = stackLoop xs (tgt @ [x]) p m"
      using False by (simp add: Let_def)
    show ?thesis unfolding step using Cons.IH by blast
  qed
qed

lemma stackLoop_stack:
  "fst (stackLoop src tgt p m) = drop (overflowCount (length tgt) (length src) m) (tgt @ src)"
proof (induction src arbitrary: tgt p)
  case Nil
  then show ?case by (simp add: overflowCount_def)
next
  case (Cons x xs)
  show ?case
  proof (cases "int (length (tgt @ [x])) > m")
    case True
    have k: "overflowCount (length tgt) (length (x # xs)) m = Suc (length xs)"
            "overflowCount (length (tl (tgt @ [x]))) (length xs) m = length xs"
      using True by (simp_all add: overflowCount_def)
    have dec: "tgt @ x # xs = hd (tgt @ [x]) # (tl (tgt @ [x]) @ xs)"
      by (cases tgt) simp_all
    have d: "drop (Suc (length xs)) (tgt @ x # xs) = drop (length xs) (tl (tgt @ [x]) @ xs)"
      by (subst dec) simp
    have step: "fst (stackLoop (x # xs) tgt p m) = fst (stackLoop xs (tl (tgt @ [x]))
         (set_vault (if hd (tgt @ [x]) = pid p then \<lparr>self = self (vault p) + 1, opponent = opponent (vault p)\<rparr>
                             else \<lparr>self = self (vault p), opponent = opponent (vault p) + 1\<rparr>) p) m)"
      using True by (simp add: Let_def)
    show ?thesis
      unfolding step k(1) d Cons.IH k(2) ..
  next
    case False
    have k: "overflowCount (length tgt) (length (x # xs)) m = overflowCount (length (tgt @ [x])) (length xs) m"
      using False by (simp add: overflowCount_def)
    have step: "fst (stackLoop (x # xs) tgt p m) = fst (stackLoop xs (tgt @ [x]) p m)"
      using False by (simp add: Let_def)
    show ?thesis
      unfolding step k Cons.IH by simp
  qed
qed

lemma stackLoop_top:
  assumes "src \<noteq> []" "tgt \<noteq> []"
  shows "fst (stackLoop src tgt p m) \<noteq> []" "last (fst (stackLoop src tgt p m)) = last src"
proof -
  let ?k = "overflowCount (length tgt) (length src) m"
  have k: "?k \<le> length src" by (simp add: overflowCount_def)
  have lt: "?k < length (tgt @ src)" using k assms(2) by (cases tgt) simp_all
  from lt show "fst (stackLoop src tgt p m) \<noteq> []" unfolding stackLoop_stack
    by (simp only: drop_eq_Nil not_le) 
  have "last (drop ?k (tgt @ src)) = last (tgt @ src)" by (rule last_drop[OF lt])
  also have "\<dots> = last src" using assms(1) by simp
  finally show "last (fst (stackLoop src tgt p m)) = last src"
    unfolding stackLoop_stack .
qed

text \<open>What a successful stackTowers for a known mover returns.\<close>

lemma stackTowers_Some:
  assumes "stackTowers src tgt (Some p) m = Inr (st, po)"
  shows "src \<noteq> []" "atLast src \<noteq> atLast tgt" "st \<noteq> []" "atLast st = atLast src" "\<exists>v. po = Some (p\<lparr>vault := v\<rparr>)"
proof -
  show s: "src \<noteq> []" using assms by (auto simp: stackTowers_def split: if_splits)
  show d: "atLast src \<noteq> atLast tgt"
    using assms s by (auto simp: stackTowers_def atLast_def split: if_splits)
  show "st \<noteq> []" "atLast st = atLast src" "\<exists>v. po = Some (p\<lparr>vault := v\<rparr>)"
  proof (atomize (full), cases "tgt = []")
    case True
    have "st = src" "po = Some (p\<lparr>vault := vault p\<rparr>)"
      using assms s True unfolding stackTowers_def by simp_all
    then show "st \<noteq> [] \<and> atLast st = atLast src \<and> (\<exists>v. po = Some (p\<lparr>vault := v\<rparr>))"
      using s by blast
  next
    case False
    obtain v where v: "snd (stackLoop src tgt p m) = p\<lparr>vault := v\<rparr>" using stackLoop_player by blast
    have "st = fst (stackLoop src tgt p m)" "po = Some (snd (stackLoop src tgt p m))"
      using assms s d False by (auto simp: stackTowers_def split: prod.splits)
    then show "st \<noteq> [] \<and> atLast st = atLast src \<and> (\<exists>v. po = Some (p\<lparr>vault := v\<rparr>))"
      using stackLoop_top[OF s False, of p m] v s by (auto simp: atLast_def)
  qed
qed

subsection \<open>Applying a move\<close>

lemma playMove_normal:
  assumes "s < length (cells b)" "t < length (cells b)"
    and "findIdx turn (twoPlayer b) = Some i"
    and "stackTowers (svgLayout (cells b ! s)) (svgLayout (cells b ! t)) (Some (twoPlayer b ! i)) m = Inr (st, Some p1)"
  shows "playMove s t b m =
           Inr (b\<lparr>cells := (cells b)[t := landed (cells b ! s) (cells b ! t) st, s := cleared (cells b ! s)],
                  twoPlayer := (twoPlayer b)[i := moved (cells b ! s) (cells b ! t) p1]\<rparr>)"
proof -
  have top: "atLast (svgLayout (cells b ! s)) = Some USER \<or> atLast (svgLayout (cells b ! s)) = Some BOT"
    using stackTowers_Some(1)[OF assms(4)] by (simp add: atLast_def) (metis player_id.exhaust)
  have ?thesis
    if "atLast (svgLayout (cells b ! s)) = Some w" "dot (cells b ! s) = d"
       "(row (cells b ! t) = 0) = r0" "(row (cells b ! t) = 5) = r5" for w d r0 r5
    using that assms unfolding playMove_def Let_def
    by (cases w; cases d; cases r0; cases r5;
        simp add: landed_def captures_def reverses_def moved_def cleared_def set_safetyTower_def)
  then show ?thesis using top by blast
qed

lemma playMove_Inr:
  assumes "playMove s t b m = Inr b'"
  shows "\<exists>i st v. s < length (cells b) \<and> t < length (cells b) \<and> s \<noteq> t
           \<and> findIdx turn (twoPlayer b) = Some i \<and> i < length (twoPlayer b)
           \<and> svgLayout (cells b ! s) \<noteq> []
           \<and> atLast (svgLayout (cells b ! s)) \<noteq> atLast (svgLayout (cells b ! t))
           \<and> st \<noteq> [] \<and> atLast st = atLast (svgLayout (cells b ! s))
           \<and> stackTowers (svgLayout (cells b ! s)) (svgLayout (cells b ! t)) (Some (twoPlayer b ! i)) m
               = Inr (st, Some ((twoPlayer b ! i)\<lparr>vault := v\<rparr>))
           \<and> b' = b\<lparr>cells := (cells b)[t := landed (cells b ! s) (cells b ! t) st, s := cleared (cells b ! s)],
                     twoPlayer := (twoPlayer b)[i := moved (cells b ! s) (cells b ! t) ((twoPlayer b ! i)\<lparr>vault := v\<rparr>)]\<rparr>"
proof -
  have len: "s < length (cells b)" "t < length (cells b)"
    using assms unfolding playMove_def by (auto split: if_splits)
  obtain i where i: "findIdx turn (twoPlayer b) = Some i"
  proof (cases "findIdx turn (twoPlayer b)")
    case None
    then have "playMove s t b m \<noteq> Inr b'"
      using len unfolding playMove_def Let_def by (auto split: sum.splits prod.splits option.splits)
    with assms show ?thesis by simp
  next
    case (Some i)
    then show ?thesis using that by blast
  qed
  have ilen: "i < length (twoPlayer b)" using i by (simp add: findIdx_Some)
  obtain st po where st: "stackTowers (svgLayout (cells b ! s)) (svgLayout (cells b ! t)) (Some (twoPlayer b ! i)) m = Inr (st, po)"
    using assms len i unfolding playMove_def Let_def by (auto split: sum.splits)
  note facts = stackTowers_Some[OF st]
  obtain v where v: "po = Some ((twoPlayer b ! i)\<lparr>vault := v\<rparr>)" using facts(5) by blast
  have ne: "s \<noteq> t" using facts(2) by auto
  have "b' = b\<lparr>cells := (cells b)[t := landed (cells b ! s) (cells b ! t) st, s := cleared (cells b ! s)],
                     twoPlayer := (twoPlayer b)[i := moved (cells b ! s) (cells b ! t) ((twoPlayer b ! i)\<lparr>vault := v\<rparr>)]\<rparr>"
    using playMove_normal[OF len i st[unfolded v]] assms by simp
  then show ?thesis using len i ilen facts(1-4) st v ne by blast
qed

text \<open>
  C6. For an applied move of a tower of the mover: a tower that is not yet reversed and
  lands on the mover's far row (user 5, bot 0) gets its direction negated and its
  reversed flag set, and keeps the merged stack; a reversed tower that lands on the mover's
  origin row (user 0, bot 5) is cleared (empty stack, direction 0, flag false) and the
  mover's \<^verbatim>\<open>safetyTower\<close> grows by exactly one, capped at 6; in every other case the stack
  stays and \<^verbatim>\<open>safetyTower\<close> is unchanged.
\<close>

theorem playMove_reversal_capture:
  assumes "playMove s t b m = Inr b'"
    and "findIdx turn (twoPlayer b) = Some i"
    and "atLast (svgLayout (cells b ! s)) = Some (pid (twoPlayer b ! i))"
  shows "(dot (cells b ! s) = False \<and> row (cells b ! t) = farRow (pid (twoPlayer b ! i)) \<longrightarrow>
            direction (cells b' ! t) = - direction (cells b ! s) \<and> dot (cells b' ! t) = True
            \<and> map_sum id fst (stackTowers (svgLayout (cells b ! s)) (svgLayout (cells b ! t)) (Some (twoPlayer b ! i)) m)
                = Inr (svgLayout (cells b' ! t))
            \<and> atLast (svgLayout (cells b' ! t)) = Some (pid (twoPlayer b ! i))
            \<and> safetyTower (twoPlayer b' ! i) = safetyTower (twoPlayer b ! i))
       \<and> (dot (cells b ! s) = True \<and> row (cells b ! t) = originRow (pid (twoPlayer b ! i)) \<longrightarrow>
            svgLayout (cells b' ! t) = [] \<and> direction (cells b' ! t) = 0 \<and> dot (cells b' ! t) = False
            \<and> safetyTower (twoPlayer b' ! i) = min 6 (safetyTower (twoPlayer b ! i) + 1))
       \<and> (\<not> (dot (cells b ! s) = True \<and> row (cells b ! t) = originRow (pid (twoPlayer b ! i))) \<longrightarrow>
            atLast (svgLayout (cells b' ! t)) = Some (pid (twoPlayer b ! i))
            \<and> safetyTower (twoPlayer b' ! i) = safetyTower (twoPlayer b ! i))"
proof -
  let ?src = "cells b ! s" and ?tgt = "cells b ! t" and ?p = "twoPlayer b ! i"
  obtain j st v where f: "s < length (cells b)" "t < length (cells b)" "s \<noteq> t"
      "findIdx turn (twoPlayer b) = Some j" "j < length (twoPlayer b)"
      "st \<noteq> []" "atLast st = atLast (svgLayout ?src)"
      "stackTowers (svgLayout ?src) (svgLayout ?tgt) (Some (twoPlayer b ! j)) m
         = Inr (st, Some ((twoPlayer b ! j)\<lparr>vault := v\<rparr>))"
      "b' = b\<lparr>cells := (cells b)[t := landed ?src ?tgt st, s := cleared ?src],
               twoPlayer := (twoPlayer b)[j := moved ?src ?tgt ((twoPlayer b ! j)\<lparr>vault := v\<rparr>)]\<rparr>"
    using playMove_Inr[OF assms(1)] by blast
  have j: "j = i" using f(4) assms(2) by simp
  have tgt': "cells b' ! t = landed ?src ?tgt st" using f(1,2,3,9) by simp
  have p': "twoPlayer b' ! i = moved ?src ?tgt (?p\<lparr>vault := v\<rparr>)" using f(5,9) j by simp
  have cap: "captures ?src ?tgt = (dot ?src \<and> row ?tgt = originRow (pid ?p))"
    using assms(3) by (cases "pid ?p") (auto simp: captures_def originRow_def)
  have rev: "reverses ?src ?tgt = (\<not> dot ?src \<and> row ?tgt = farRow (pid ?p))"
    using assms(3) by (cases "pid ?p") (auto simp: reverses_def farRow_def)
  have st: "map_sum id fst (stackTowers (svgLayout ?src) (svgLayout ?tgt) (Some ?p) m) = Inr st"
    using f(8) j by simp
  show ?thesis
    unfolding tgt' p' st using f(6,7) assms(3)
    by (simp add: landed_def moved_def cap rev)
qed

theorem playMove_reversal_capture_witness:
  "(\<exists>b'. playMove 24 30 reversalBoard 3 = Inr b'
         \<and> findIdx turn (twoPlayer reversalBoard) = Some 1
         \<and> atLast (svgLayout (cells reversalBoard ! 24)) = Some (pid (twoPlayer reversalBoard ! 1))
         \<and> dot (cells reversalBoard ! 24) = False
         \<and> row (cells reversalBoard ! 30) = farRow (pid (twoPlayer reversalBoard ! 1))
         \<and> direction (cells b' ! 30) = - 1 \<and> dot (cells b' ! 30) = True
         \<and> atLast (svgLayout (cells b' ! 30)) = Some USER)
   \<and> (\<exists>b'. playMove 6 0 captureBoard 3 = Inr b'
         \<and> findIdx turn (twoPlayer captureBoard) = Some 1
         \<and> atLast (svgLayout (cells captureBoard ! 6)) = Some (pid (twoPlayer captureBoard ! 1))
         \<and> dot (cells captureBoard ! 6) = True
         \<and> row (cells captureBoard ! 0) = originRow (pid (twoPlayer captureBoard ! 1))
         \<and> svgLayout (cells b' ! 0) = [] \<and> direction (cells b' ! 0) = 0 \<and> dot (cells b' ! 0) = False
         \<and> safetyTower (twoPlayer b' ! 1) = 1)"
proof -
  have a1: "playMove 24 30 reversalBoard 3 = Inr (projr (playMove 24 30 reversalBoard 3))" by code_simp
  have a2: "findIdx turn (twoPlayer reversalBoard) = Some 1" by code_simp
  have a3: "atLast (svgLayout (cells reversalBoard ! 24)) = Some (pid (twoPlayer reversalBoard ! 1))" by code_simp
  have a4: "dot (cells reversalBoard ! 24) = False \<and> row (cells reversalBoard ! 30) = farRow (pid (twoPlayer reversalBoard ! 1))"
    by code_simp
  have a5: "direction (cells reversalBoard ! 24) = 1" "pid (twoPlayer reversalBoard ! 1) = USER" by code_simp+
  have c1: "playMove 6 0 captureBoard 3 = Inr (projr (playMove 6 0 captureBoard 3))" by code_simp
  have c2: "findIdx turn (twoPlayer captureBoard) = Some 1" by code_simp
  have c3: "atLast (svgLayout (cells captureBoard ! 6)) = Some (pid (twoPlayer captureBoard ! 1))" by code_simp
  have c4: "dot (cells captureBoard ! 6) = True \<and> row (cells captureBoard ! 0) = originRow (pid (twoPlayer captureBoard ! 1))"
    by code_simp
  have c5: "safetyTower (twoPlayer captureBoard ! 1) = 0" by code_simp
  show ?thesis
    using playMove_reversal_capture[OF a1 a2 a3] playMove_reversal_capture[OF c1 c2 c3] a1 a2 a3 a4 a5 c1 c2 c3 c4 c5
    by auto
qed

subsection \<open>Win check\<close>

lemma findIdx_tower: "(findIdx (\<lambda>c. atLast (svgLayout c) = Some who) (cells b) = None) = (\<not> hasTower b who)"
  by (simp add: findIdx_None hasTower_def list_ex_iff)

lemma checkWin_two:
  assumes "twoPlayer b = [p0, p1]" "pid p0 \<noteq> pid p1" "i < 2"
  shows "checkWin b i cfg =
           Inr (winCondition b (twoPlayer b ! i) (twoPlayer b ! (1 - i)) cfg,
                if winCondition b (twoPlayer b ! i) (twoPlayer b ! (1 - i)) cfg then markWinner i b else b)"
proof -
  consider "i = 0" | "i = 1" using assms(3) by linarith
  then show ?thesis
  proof cases
    case 1
    have "findIdx (\<lambda>q. pid q \<noteq> pid p0) (twoPlayer b) = Some 1" using assms(1,2) by simp
    then show ?thesis
      using 1 assms(1) unfolding checkWin_def Let_def
      by (simp add: winCondition_def markWinner_def findIdx_tower)
  next
    case 2
    have "findIdx (\<lambda>q. pid q \<noteq> pid p1) (twoPlayer b) = Some 0" using assms(1,2) by simp
    then show ?thesis
      using 2 assms(1) unfolding checkWin_def Let_def
      by (simp add: winCondition_def markWinner_def findIdx_tower)
  qed
qed

text \<open>
  C7. With the two players of the game, \<^verbatim>\<open>checkWin\<close> returns true iff the vault threshold
  is switched on and reached, or the secured towers reach \<^verbatim>\<open>safetyZone\<close>, or it is not the
  player's turn and the opponent or the player has no tower on the board; it sets the
  player's \<^verbatim>\<open>winner\<close> flag exactly when it returns true and leaves the board as it is
  otherwise.
\<close>

theorem checkWin_spec:
  assumes "twoPlayer b = [p0, p1]" "pid p0 \<noteq> pid p1" "i < 2"
  shows "checkWin b i cfg =
           Inr (winCondition b (twoPlayer b ! i) (twoPlayer b ! (1 - i)) cfg,
                if winCondition b (twoPlayer b ! i) (twoPlayer b ! (1 - i)) cfg then markWinner i b else b)"
  using assms by (rule checkWin_two)

theorem checkWin_spec_witness:
  "twoPlayer createBoard = [botPlayer, userPlayer] \<and> pid botPlayer \<noteq> pid userPlayer \<and> (0::nat) < 2
   \<and> checkWin createBoard 0 factorySettings = Inr (False, createBoard)
   \<and> checkWin createBoard 0 (factorySettings\<lparr>safetyZone := 0\<rparr>) = Inr (True, markWinner 0 createBoard)"
proof -
  have h: "twoPlayer createBoard = [botPlayer, userPlayer]" "pid botPlayer \<noteq> pid userPlayer" "(0::nat) < 2"
    by (simp_all add: createBoard_def botPlayer_def userPlayer_def)
  have w1: "winCondition createBoard (twoPlayer createBoard ! 0) (twoPlayer createBoard ! (1 - 0)) factorySettings = False"
    by code_simp
  have w2: "winCondition createBoard (twoPlayer createBoard ! 0) (twoPlayer createBoard ! (1 - 0)) (factorySettings\<lparr>safetyZone := 0\<rparr>) = True"
    by code_simp
  show ?thesis
    using checkWin_spec[OF h, of factorySettings] checkWin_spec[OF h, of "factorySettings\<lparr>safetyZone := 0\<rparr>"] h
    unfolding w1 w2 by simp
qed

subsection \<open>Undoing a move\<close>

lemma restoreCell_same:
  "row c = row saved \<Longrightarrow> column c = column saved \<Longrightarrow> restoreCell saved (c::gridCell) = saved"
  by (simp add: restoreCell_def)

lemma landed_coords [simp]: "row (landed src tgt st) = row tgt" "column (landed src tgt st) = column tgt"
  by (simp_all add: landed_def)

lemma cleared_coords [simp]: "row (cleared c) = row c" "column (cleared c) = column c"
  by (simp_all add: cleared_def)

lemma wfCells_cell_id: "wfCells b \<Longrightarrow> i < length (cells b) \<Longrightarrow> cell_id (cells b ! i) = int i"
  using wfCells_nth[of b i] wfCells_length[of b] by (simp add: cell_id_def)

lemma find_distinct:
  assumes "distinct (map f xs)" "k < length xs"
  shows "List.find (\<lambda>q. f q = f (xs ! k)) xs = Some (xs ! k)"
proof -
  have "f (xs ! j) \<noteq> f (xs ! k)" if "j < k" for j
    using nth_eq_iff_index_eq[OF assms(1), of j k] that assms(2) by simp
  then show ?thesis unfolding find_Some_iff using assms(2) by blast
qed

lemma restorePlayer_same:
  assumes "distinct (map pid ps)" "k < length ps"
    and "safetyTower (ps ! k) \<le> 6" "self (vault (ps ! k)) \<le> 6" "opponent (vault (ps ! k)) \<le> 6"
    and "pid q = pid (ps ! k)" "isMaximizing q = isMaximizing (ps ! k)" "winner q = winner (ps ! k)"
  shows "restorePlayer ps (q::player) = ps ! k"
proof -
  have "List.find (\<lambda>q'. pid q' = pid q) ps = Some (ps ! k)"
    using find_distinct[OF assms(1,2)] assms(6) by simp
  then show ?thesis
    using assms(3-8) by (simp add: restorePlayer_def set_vault_def set_safetyTower_def)
qed

subsection \<open>Legal moves apply\<close>

lemma candidate_facts:
  assumes "j \<in> set (candidate b c (neighbor b r k))"
  shows "j < length (cells b)" "row (cells b ! j) = r" "column (cells b ! j) = k"
        "atLast (svgLayout (cells b ! j)) \<noteq> atLast (svgLayout c)"
proof -
  have n: "neighbor b r k = Some j" and a: "atLast (svgLayout (cells b ! j)) \<noteq> atLast (svgLayout c)"
    using assms by (auto simp: candidate_def split: option.splits if_splits)
  show "atLast (svgLayout (cells b ! j)) \<noteq> atLast (svgLayout c)" by (rule a)
  show "j < length (cells b)" "row (cells b ! j) = r" "column (cells b ! j) = k"
    using n by (simp_all add: neighbor_def findIdx_Some)
qed

lemma getLocalMoves_facts:
  assumes "j \<in> set (getLocalMoves c p b)"
  shows "j < length (cells b)" "atLast (svgLayout (cells b ! j)) \<noteq> atLast (svgLayout c)"
  using assms candidate_facts(1,4)[of j b c]
  by (auto simp: getLocalMoves_def Let_def split: if_splits)

lemma getAllPossibleMoves_facts:
  assumes "(s, t) \<in> set (getAllPossibleMoves b p)"
  shows "s < length (cells b)" "svgLayout (cells b ! s) \<noteq> []"
        "atLast (svgLayout (cells b ! s)) = Some (pid p)"
        "t \<in> set (getLocalMoves (cells b ! s) p b)"
  using assms by (auto simp: getAllPossibleMoves_def)

lemma stackTowers_ok:
  assumes "src \<noteq> []" "atLast src \<noteq> atLast tgt"
  shows "\<exists>st p1. stackTowers src tgt (Some p) m = Inr (st, Some p1)"
  using assms by (auto simp: stackTowers_def split: prod.splits)

lemma playMove_ok:
  assumes "s < length (cells b)" "t < length (cells b)" "findIdx turn (twoPlayer b) = Some i"
    and "svgLayout (cells b ! s) \<noteq> []"
    and "atLast (svgLayout (cells b ! s)) \<noteq> atLast (svgLayout (cells b ! t))"
  shows "\<exists>b'. playMove s t b m = Inr b'"
proof -
  obtain st p1 where "stackTowers (svgLayout (cells b ! s)) (svgLayout (cells b ! t)) (Some (twoPlayer b ! i)) m = Inr (st, Some p1)"
    using stackTowers_ok[OF assms(4,5)] by blast
  from playMove_normal[OF assms(1-3) this] show ?thesis by blast
qed

lemma legal_move_applies:
  assumes "findIdx turn (twoPlayer b) = Some i" "(s, t) \<in> set (getAllPossibleMoves b p)"
  shows "\<exists>b1. applyMoveAndTurn b s t m = Inr b1"
proof -
  note f = getAllPossibleMoves_facts[OF assms(2)]
  note g = getLocalMoves_facts[OF f(4)]
  obtain b' where "playMove s t b m = Inr b'"
    using playMove_ok[OF f(1) g(1) assms(1) f(2) g(2)[symmetric]] by blast
  then show ?thesis by (simp add: applyMoveAndTurn_def)
qed

subsection \<open>Boards up to the winner flags\<close>

lemma eraseWinner_cells [simp]: "cells (eraseWinner b) = cells b"
  by (simp add: eraseWinner_def)

lemma eraseWinner_eq_iff:
  "eraseWinner x = eraseWinner y \<longleftrightarrow>
     cells x = cells y \<and> map (\<lambda>p. p\<lparr>winner := False\<rparr>) (twoPlayer x) = map (\<lambda>p. p\<lparr>winner := False\<rparr>) (twoPlayer y)"
  by (cases x; cases y) (auto simp: eraseWinner_def)

lemma eraseWinner_players:
  assumes "eraseWinner x = eraseWinner y"
  shows "length (twoPlayer x) = length (twoPlayer y)"
    and "k < length (twoPlayer y) \<Longrightarrow> (twoPlayer x ! k)\<lparr>winner := False\<rparr> = (twoPlayer y ! k)\<lparr>winner := False\<rparr>"
proof -
  have m: "map (\<lambda>p. p\<lparr>winner := False\<rparr>) (twoPlayer x) = map (\<lambda>p. p\<lparr>winner := False\<rparr>) (twoPlayer y)"
    using assms by (simp add: eraseWinner_eq_iff)
  then show l: "length (twoPlayer x) = length (twoPlayer y)" by (rule map_eq_imp_length_eq)
  show "(twoPlayer x ! k)\<lparr>winner := False\<rparr> = (twoPlayer y ! k)\<lparr>winner := False\<rparr>" if "k < length (twoPlayer y)"
    using arg_cong[OF m, of "\<lambda>xs. xs ! k"] that l by simp
qed

lemma erased_fields:
  assumes "(p::player)\<lparr>winner := False\<rparr> = q\<lparr>winner := False\<rparr>"
  shows "pid p = pid q" "isMaximizing p = isMaximizing q" "turn p = turn q"
        "lastHorizontal p = lastHorizontal q" "safetyTower p = safetyTower q" "vault p = vault q"
proof -
  have "pid (p\<lparr>winner := False\<rparr>) = pid (q\<lparr>winner := False\<rparr>)" using assms by simp
  then show "pid p = pid q" by simp
  have "isMaximizing (p\<lparr>winner := False\<rparr>) = isMaximizing (q\<lparr>winner := False\<rparr>)" using assms by simp
  then show "isMaximizing p = isMaximizing q" by simp
  have "turn (p\<lparr>winner := False\<rparr>) = turn (q\<lparr>winner := False\<rparr>)" using assms by simp
  then show "turn p = turn q" by simp
  have "lastHorizontal (p\<lparr>winner := False\<rparr>) = lastHorizontal (q\<lparr>winner := False\<rparr>)" using assms by simp
  then show "lastHorizontal p = lastHorizontal q" by simp
  have "safetyTower (p\<lparr>winner := False\<rparr>) = safetyTower (q\<lparr>winner := False\<rparr>)" using assms by simp
  then show "safetyTower p = safetyTower q" by simp
  have "vault (p\<lparr>winner := False\<rparr>) = vault (q\<lparr>winner := False\<rparr>)" using assms by simp
  then show "vault p = vault q" by simp
qed

lemma eraseWinner_winner_eq:
  assumes "eraseWinner x = eraseWinner y" "map winner (twoPlayer x) = map winner (twoPlayer y)"
  shows "x = y"
proof -
  have c: "cells x = cells y" using assms(1) by (simp add: eraseWinner_eq_iff)
  have l: "length (twoPlayer x) = length (twoPlayer y)" using eraseWinner_players(1)[OF assms(1)] .
  have "twoPlayer x ! k = twoPlayer y ! k" if "k < length (twoPlayer y)" for k
  proof -
    have "winner (twoPlayer x ! k) = winner (twoPlayer y ! k)"
      using arg_cong[OF assms(2), of "\<lambda>xs. xs ! k"] that l by simp
    moreover note erased_fields[OF eraseWinner_players(2)[OF assms(1) that]]
    ultimately show ?thesis by (intro player.equality) simp_all
  qed
  then have "twoPlayer x = twoPlayer y" using l by (simp add: list_eq_iff_nth_eq)
  with c show ?thesis by (intro boardState.equality) simp_all
qed

lemma restorePlayer_erased:
  assumes "distinct (map pid ps)" "k < length ps"
    and "safetyTower (ps ! k) \<le> 6" "self (vault (ps ! k)) \<le> 6" "opponent (vault (ps ! k)) \<le> 6"
    and "pid q = pid (ps ! k)" "isMaximizing q = isMaximizing (ps ! k)"
  shows "(restorePlayer ps (q::player))\<lparr>winner := False\<rparr> = (ps ! k)\<lparr>winner := False\<rparr>"
    and "winner (restorePlayer ps q) = winner q"
proof -
  have f: "List.find (\<lambda>q'. pid q' = pid q) ps = Some (ps ! k)"
    unfolding assms(6) by (rule find_distinct[OF assms(1,2)])
  have r: "restorePlayer ps q =
             set_vault (vault (ps ! k)) (set_safetyTower (safetyTower (ps ! k))
               (q\<lparr>turn := turn (ps ! k), lastHorizontal := lastHorizontal (ps ! k)\<rparr>))"
    unfolding restorePlayer_def f by simp
  show "(restorePlayer ps q)\<lparr>winner := False\<rparr> = (ps ! k)\<lparr>winner := False\<rparr>"
    unfolding r using assms(3-7)
    by (intro player.equality) (simp_all add: set_vault_def set_safetyTower_def)
  show "winner (restorePlayer ps q) = winner q"
    unfolding r by (simp add: set_vault_def set_safetyTower_def)
qed

lemma applyMoveAndTurn_Inr:
  assumes "applyMoveAndTurn b s t m = Inr b1"
  shows "\<exists>i st v. s < length (cells b) \<and> t < length (cells b) \<and> s \<noteq> t
           \<and> findIdx turn (twoPlayer b) = Some i \<and> i < length (twoPlayer b)
           \<and> svgLayout (cells b ! s) \<noteq> []
           \<and> atLast (svgLayout (cells b ! s)) \<noteq> atLast (svgLayout (cells b ! t))
           \<and> st \<noteq> [] \<and> atLast st = atLast (svgLayout (cells b ! s))
           \<and> stackTowers (svgLayout (cells b ! s)) (svgLayout (cells b ! t)) (Some (twoPlayer b ! i)) m
               = Inr (st, Some ((twoPlayer b ! i)\<lparr>vault := v\<rparr>))
           \<and> cells b1 = (cells b)[t := landed (cells b ! s) (cells b ! t) st, s := cleared (cells b ! s)]
           \<and> twoPlayer b1 = switchPlayer ((twoPlayer b)[i := moved (cells b ! s) (cells b ! t) ((twoPlayer b ! i)\<lparr>vault := v\<rparr>)])"
proof -
  obtain b' where b': "playMove s t b m = Inr b'" "b1 = b'\<lparr>twoPlayer := switchPlayer (twoPlayer b')\<rparr>"
    using assms by (auto simp: applyMoveAndTurn_def split: sum.splits)
  from playMove_Inr[OF b'(1)] obtain i st v where f: "s < length (cells b)" "t < length (cells b)" "s \<noteq> t"
      "findIdx turn (twoPlayer b) = Some i" "i < length (twoPlayer b)"
      "svgLayout (cells b ! s) \<noteq> []"
      "atLast (svgLayout (cells b ! s)) \<noteq> atLast (svgLayout (cells b ! t))"
      "st \<noteq> []" "atLast st = atLast (svgLayout (cells b ! s))"
      "stackTowers (svgLayout (cells b ! s)) (svgLayout (cells b ! t)) (Some (twoPlayer b ! i)) m
         = Inr (st, Some ((twoPlayer b ! i)\<lparr>vault := v\<rparr>))"
      "b' = b\<lparr>cells := (cells b)[t := landed (cells b ! s) (cells b ! t) st, s := cleared (cells b ! s)],
               twoPlayer := (twoPlayer b)[i := moved (cells b ! s) (cells b ! t) ((twoPlayer b ! i)\<lparr>vault := v\<rparr>)]\<rparr>"
    by blast
  have "cells b1 = (cells b)[t := landed (cells b ! s) (cells b ! t) st, s := cleared (cells b ! s)]"
       "twoPlayer b1 = switchPlayer ((twoPlayer b)[i := moved (cells b ! s) (cells b ! t) ((twoPlayer b ! i)\<lparr>vault := v\<rparr>)])"
    unfolding b'(2) f(11) by simp_all
  with f(1-10) show ?thesis by blast
qed

lemma applyMoveAndTurn_players:
  assumes "applyMoveAndTurn b s t m = Inr b1"
  shows "length (twoPlayer b1) = length (twoPlayer b)"
    and "k < length (twoPlayer b) \<Longrightarrow> pid (twoPlayer b1 ! k) = pid (twoPlayer b ! k)"
    and "k < length (twoPlayer b) \<Longrightarrow> isMaximizing (twoPlayer b1 ! k) = isMaximizing (twoPlayer b ! k)"
    and "k < length (twoPlayer b) \<Longrightarrow> winner (twoPlayer b1 ! k) = winner (twoPlayer b ! k)"
proof -
  from applyMoveAndTurn_Inr[OF assms] obtain i st v where
    p: "twoPlayer b1 = switchPlayer ((twoPlayer b)[i := moved (cells b ! s) (cells b ! t) ((twoPlayer b ! i)\<lparr>vault := v\<rparr>)])"
    by blast
  show "length (twoPlayer b1) = length (twoPlayer b)" unfolding p by (simp add: switchPlayer_def)
  show "pid (twoPlayer b1 ! k) = pid (twoPlayer b ! k)" if "k < length (twoPlayer b)"
    unfolding p using that by (cases "k = i") (simp_all add: switchPlayer_def moved_def)
  show "isMaximizing (twoPlayer b1 ! k) = isMaximizing (twoPlayer b ! k)" if "k < length (twoPlayer b)"
    unfolding p using that by (cases "k = i") (simp_all add: switchPlayer_def moved_def)
  show "winner (twoPlayer b1 ! k) = winner (twoPlayer b ! k)" if "k < length (twoPlayer b)"
    unfolding p using that by (cases "k = i") (simp_all add: switchPlayer_def moved_def)
qed

lemma wfPlayers_nth:
  assumes "wfPlayers b" "k < length (twoPlayer b)"
  shows "safetyTower (twoPlayer b ! k) \<le> 6" "self (vault (twoPlayer b ! k)) \<le> 6" "opponent (vault (twoPlayer b ! k)) \<le> 6"
  using assms by (simp_all add: wfPlayers_def list_all_length)

lemma undo_apply:
  assumes "wfCells b" "wfPlayers b" "applyMoveAndTurn b s t m = Inr b1" "eraseWinner b2 = eraseWinner b1"
  shows "\<exists>b3. undoMove b2 (logMove b s t) = Inr b3 \<and> eraseWinner b3 = eraseWinner b
              \<and> map winner (twoPlayer b3) = map winner (twoPlayer b2)"
proof -
  let ?ps = "twoPlayer b"
  from applyMoveAndTurn_Inr[OF assms(3)] obtain st where f: "s < length (cells b)" "t < length (cells b)" "s \<noteq> t"
      "cells b1 = (cells b)[t := landed (cells b ! s) (cells b ! t) st, s := cleared (cells b ! s)]"
    by blast
  have c2: "cells b2 = cells b1" using assms(4) by (simp add: eraseWinner_eq_iff)
  have ids: "cell_id (cells b ! s) = int s" "cell_id (cells b ! t) = int t"
    using wfCells_cell_id[OF assms(1)] f(1,2) by simp_all
  let ?cs1 = "(cells b2)[s := restoreCell (cells b ! s) (cells b2 ! s)]"
  let ?cs2 = "?cs1[t := restoreCell (cells b ! t) (?cs1 ! t)]"
  have "cells b2 ! s = cleared (cells b ! s)" unfolding c2 f(4) using f(1,2,3) by simp
  then have r1: "restoreCell (cells b ! s) (cells b2 ! s) = cells b ! s" by (simp add: restoreCell_same)
  have cs1: "?cs1 = (cells b)[t := landed (cells b ! s) (cells b ! t) st, s := cells b ! s]"
    unfolding r1 unfolding c2 f(4) by simp
  have "(cells b)[t := landed (cells b ! s) (cells b ! t) st, s := cells b ! s] ! t = landed (cells b ! s) (cells b ! t) st"
    using f(1,2,3) by simp
  then have r2: "restoreCell (cells b ! t) ((cells b)[t := landed (cells b ! s) (cells b ! t) st, s := cells b ! s] ! t) = cells b ! t"
    by (simp add: restoreCell_same)
  have cs: "?cs2 = cells b"
    unfolding cs1 r2 using f(1,2,3)
    by (auto simp: list_eq_iff_nth_eq nth_list_update)
  have len2: "length (cells b2) = length (cells b)" unfolding c2 f(4) by simp
  have u: "undoMove b2 (logMove b s t) = Inr (b2\<lparr>cells := ?cs2, twoPlayer := map (restorePlayer ?ps) (twoPlayer b2)\<rparr>)"
    unfolding undoMove_def Let_def logMove_def using f(1,2) len2 by (simp add: ids)
  let ?b3 = "b2\<lparr>cells := cells b, twoPlayer := map (restorePlayer ?ps) (twoPlayer b2)\<rparr>"
  have l2: "length (twoPlayer b2) = length ?ps"
    using eraseWinner_players(1)[OF assms(4)] applyMoveAndTurn_players(1)[OF assms(3)] by simp
  have pk: "(restorePlayer ?ps (twoPlayer b2 ! k))\<lparr>winner := False\<rparr> = (?ps ! k)\<lparr>winner := False\<rparr>"
           "winner (restorePlayer ?ps (twoPlayer b2 ! k)) = winner (twoPlayer b2 ! k)"
    if k: "k < length ?ps" for k
  proof -
    have k1: "k < length (twoPlayer b1)" using k applyMoveAndTurn_players(1)[OF assms(3)] by simp
    note e = erased_fields(1,2)[OF eraseWinner_players(2)[OF assms(4) k1]]
    have a: "pid (twoPlayer b2 ! k) = pid (?ps ! k)" "isMaximizing (twoPlayer b2 ! k) = isMaximizing (?ps ! k)"
      using e applyMoveAndTurn_players(2,3)[OF assms(3) k] by simp_all
    have d: "distinct (map pid ?ps)" using assms(2) by (simp add: wfPlayers_def)
    note r = restorePlayer_erased[OF d k wfPlayers_nth[OF assms(2) k] a]
    show "(restorePlayer ?ps (twoPlayer b2 ! k))\<lparr>winner := False\<rparr> = (?ps ! k)\<lparr>winner := False\<rparr>" by (rule r(1))
    show "winner (restorePlayer ?ps (twoPlayer b2 ! k)) = winner (twoPlayer b2 ! k)" by (rule r(2))
  qed
  have e3: "eraseWinner ?b3 = eraseWinner b"
    unfolding eraseWinner_eq_iff using l2 pk(1) by (simp add: list_eq_iff_nth_eq)
  have w3: "map winner (twoPlayer ?b3) = map winner (twoPlayer b2)"
    using l2 pk(2) by (simp add: list_eq_iff_nth_eq)
  show ?thesis unfolding u cs using e3 w3 by blast
qed

text \<open>
  C1. On a board of the data model (row-major 6 by 6 grid, players with distinct ids and
  counters within their cap), for every legal move of the player to move:
  \<^verbatim>\<open>applyMoveAndTurn\<close> succeeds, and \<^verbatim>\<open>undoMove\<close> with the snapshot logged before the move
  gives back the board exactly as it was, so in particular the stack, direction and
  reversed flag of both cells and the turn, lateral lock, secured towers and vault of both
  players.
\<close>

theorem applyMove_undoMove_roundtrip:
  assumes "wfCells b" "wfPlayers b"
    and "findIdx turn (twoPlayer b) = Some i"
    and "(s, t) \<in> set (getAllPossibleMoves b (twoPlayer b ! i))"
  shows "\<exists>b1. applyMoveAndTurn b s t m = Inr b1 \<and> undoMove b1 (logMove b s t) = Inr b"
proof -
  obtain b1 where b1: "applyMoveAndTurn b s t m = Inr b1"
    using legal_move_applies[OF assms(3,4)] by blast
  obtain b3 where b3: "undoMove b1 (logMove b s t) = Inr b3" "eraseWinner b3 = eraseWinner b"
      "map winner (twoPlayer b3) = map winner (twoPlayer b1)"
    using undo_apply[OF assms(1,2) b1 refl] by blast
  have "map winner (twoPlayer b1) = map winner (twoPlayer b)"
    using applyMoveAndTurn_players(1,4)[OF b1] by (simp add: list_eq_iff_nth_eq)
  then have "b3 = b" using eraseWinner_winner_eq[OF b3(2)] b3(3) by simp
  with b1 b3(1) show ?thesis by blast
qed

theorem applyMove_undoMove_roundtrip_witness:
  "wfCells createBoard \<and> wfPlayers createBoard \<and> findIdx turn (twoPlayer createBoard) = Some 1
   \<and> (6, 12) \<in> set (getAllPossibleMoves createBoard (twoPlayer createBoard ! 1))
   \<and> (\<exists>b1. applyMoveAndTurn createBoard 6 12 3 = Inr b1
          \<and> undoMove b1 (logMove createBoard 6 12) = Inr createBoard)"
proof -
  have h3: "findIdx turn (twoPlayer createBoard) = Some 1" by code_simp
  have h4: "(6, 12) \<in> set (getAllPossibleMoves createBoard (twoPlayer createBoard ! 1))" by code_simp
  show ?thesis
    using applyMove_undoMove_roundtrip[OF wfCells_createBoard wfPlayers_createBoard h3 h4, of 3]
      wfCells_createBoard wfPlayers_createBoard h3 h4 by blast
qed

subsection \<open>The lateral lock\<close>

lemma findIdx_two:
  assumes "length ps = 2" "i < 2" "P (ps ! i)" "\<not> P (ps ! (1 - i))"
  shows "findIdx P ps = Some i"
proof -
  obtain p q where ps: "ps = [p, q]"
    using assms(1) by (metis (no_types) One_nat_def Suc_1 length_0_conv length_Suc_conv)
  consider "i = 0" | "i = 1" using assms(2) by linarith
  then show ?thesis using assms(3,4) ps by cases simp_all
qed

lemma wfCells_unique:
  assumes "wfCells b" "i < length (cells b)" "j < length (cells b)"
    and "row (cells b ! i) = row (cells b ! j)" "column (cells b ! i) = column (cells b ! j)"
  shows "i = j"
proof -
  have l: "i < 36" "j < 36" using assms(2,3) wfCells_length[OF assms(1)] by simp_all
  have "int i div 6 = int j div 6" "int i mod 6 = int j mod 6"
    using wfCells_nth[OF assms(1) l(1)] wfCells_nth[OF assms(1) l(2)] assms(4,5) by simp_all
  then have "int i = int j" by (metis div_mult_mod_eq)
  then show ?thesis by simp
qed

lemma wfCells_cong:
  assumes "wfCells b" "map (\<lambda>c. (row c, column c)) (cells b1) = map (\<lambda>c. (row c, column c)) (cells b)"
  shows "wfCells b1"
  using assms unfolding wfCells_def by (simp only:)

lemma wfCells_apply:
  assumes "wfCells b" "applyMoveAndTurn b s t m = Inr b1"
  shows "wfCells b1"
proof -
  from applyMoveAndTurn_Inr[OF assms(2)] obtain st where f: "s < length (cells b)" "t < length (cells b)"
      "cells b1 = (cells b)[t := landed (cells b ! s) (cells b ! t) st, s := cleared (cells b ! s)]"
    by blast
  have "map (\<lambda>c. (row c, column c)) (cells b1) = map (\<lambda>c. (row c, column c)) (cells b)"
    unfolding f(3) using f(1,2) by (auto simp: list_eq_iff_nth_eq nth_list_update)
  then show ?thesis by (rule wfCells_cong[OF assms(1)])
qed

lemma applyMoveAndTurn_mover:
  assumes "applyMoveAndTurn b s t m = Inr b1" "findIdx turn (twoPlayer b) = Some i"
  shows "lastHorizontal (twoPlayer b1 ! i) = (row (cells b ! t) = row (cells b ! s))"
    and "turn (twoPlayer b1 ! i) = False"
    and "k < length (twoPlayer b) \<Longrightarrow> k \<noteq> i \<Longrightarrow> lastHorizontal (twoPlayer b1 ! k) = lastHorizontal (twoPlayer b ! k)"
    and "k < length (twoPlayer b) \<Longrightarrow> k \<noteq> i \<Longrightarrow> turn (twoPlayer b1 ! k) = (\<not> turn (twoPlayer b ! k))"
proof -
  from applyMoveAndTurn_Inr[OF assms(1)] obtain j st v where
    f: "findIdx turn (twoPlayer b) = Some j" "j < length (twoPlayer b)"
       "twoPlayer b1 = switchPlayer ((twoPlayer b)[j := moved (cells b ! s) (cells b ! t) ((twoPlayer b ! j)\<lparr>vault := v\<rparr>)])"
    by blast
  have j: "j = i" using f(1) assms(2) by simp
  have ti: "turn (twoPlayer b ! i)" using assms(2) by (simp add: findIdx_Some)
  show "lastHorizontal (twoPlayer b1 ! i) = (row (cells b ! t) = row (cells b ! s))"
    unfolding f(3) using f(2) j by (simp add: switchPlayer_def moved_def)
  show "turn (twoPlayer b1 ! i) = False"
    unfolding f(3) using f(2) j ti by (simp add: switchPlayer_def moved_def)
  show "lastHorizontal (twoPlayer b1 ! k) = lastHorizontal (twoPlayer b ! k)" if "k < length (twoPlayer b)" "k \<noteq> i"
    unfolding f(3) using that j by (simp add: switchPlayer_def)
  show "turn (twoPlayer b1 ! k) = (\<not> turn (twoPlayer b ! k))" if "k < length (twoPlayer b)" "k \<noteq> i"
    unfolding f(3) using that j by (simp add: switchPlayer_def)
qed

lemma wfCells_emptyBoard: "wfCells (emptyBoard ps)"
  by (simp add: wfCells_def emptyBoard_def o_def)

lemma wfCells_putTower:
  assumes "wfCells b"
  shows "wfCells (putTower i st d dt b)"
proof (rule wfCells_cong[OF assms])
  show "map (\<lambda>c. (row c, column c)) (cells (putTower i st d dt b)) = map (\<lambda>c. (row c, column c)) (cells b)"
  proof (cases "i < length (cells b)")
    case True
    then show ?thesis by (simp add: putTower_def map_update list_update_same_conv)
  next
    case False
    then have "(cells b)[i := (cells b ! i)\<lparr>svgLayout := st, direction := d, dot := dt\<rparr>] = cells b"
      by (intro list_update_beyond) simp
    then show ?thesis by (simp add: putTower_def)
  qed
qed

text \<open>
  C10. With two players of whom exactly one is to move, on the 6 by 6 board: after the
  player's lateral move (target row equal to source row) the player's \<^verbatim>\<open>lastHorizontal\<close> is
  true; it is still true when the opponent has replied and the player is to move again,
  and \<^verbatim>\<open>getLocalMoves\<close> then returns forward candidates only, so every legal move of the
  player changes the row; after such a move \<^verbatim>\<open>lastHorizontal\<close> is false and
  \<^verbatim>\<open>getLocalMoves\<close> considers the four lateral candidates again.
\<close>

theorem lateral_lock:
  assumes "wfCells b0" "length (twoPlayer b0) = 2" "i < 2"
    and "turn (twoPlayer b0 ! i) = True" "turn (twoPlayer b0 ! (1 - i)) = False"
    and "applyMoveAndTurn b0 s t m = Inr b1" "row (cells b0 ! t) = row (cells b0 ! s)"
    and "applyMoveAndTurn b1 s' t' m = Inr b2"
    and "(s2, t2) \<in> set (getAllPossibleMoves b2 (twoPlayer b2 ! i))"
    and "applyMoveAndTurn b2 s2 t2 m = Inr b3"
  shows "lastHorizontal (twoPlayer b1 ! i) = True
       \<and> lastHorizontal (twoPlayer b2 ! i) = True \<and> findIdx turn (twoPlayer b2) = Some i
       \<and> (\<forall>c. getLocalMoves c (twoPlayer b2 ! i) b2 =
                candidate b2 c (neighbor b2 (row c + direction c) (column c))
              @ candidate b2 c (neighbor b2 (row c + 2 * direction c) (column c)))
       \<and> row (cells b2 ! t2) \<noteq> row (cells b2 ! s2)
       \<and> lastHorizontal (twoPlayer b3 ! i) = False
       \<and> (\<forall>c. getLocalMoves c (twoPlayer b3 ! i) b3 =
                candidate b3 c (neighbor b3 (row c + direction c) (column c))
              @ candidate b3 c (neighbor b3 (row c + 2 * direction c) (column c))
              @ candidate b3 c (neighbor b3 (row c) (jsRem (column c + 5) 6))
              @ candidate b3 c (neighbor b3 (row c) (jsRem (column c + 4) 6))
              @ candidate b3 c (neighbor b3 (row c) (jsRem (column c + 7) 6))
              @ candidate b3 c (neighbor b3 (row c) (jsRem (column c + 8) 6)))"
proof -
  let ?o = "1 - i"
  have oi: "?o < 2" "?o \<noteq> i" "1 - ?o = i" using assms(3) by arith+
  have t0: "findIdx turn (twoPlayer b0) = Some i"
    using findIdx_two[OF assms(2,3), of turn] assms(4,5) by simp
  note l1 = applyMoveAndTurn_players(1)[OF assms(6)]
  note m1 = applyMoveAndTurn_mover[OF assms(6) t0]
  have lh1: "lastHorizontal (twoPlayer b1 ! i) = True" using m1(1) assms(7) by simp
  have to1: "turn (twoPlayer b1 ! ?o)" using m1(4)[of ?o] oi assms(2,5) by simp
  have t1: "findIdx turn (twoPlayer b1) = Some ?o"
    using findIdx_two[of "twoPlayer b1" ?o turn] l1 assms(2) oi to1 m1(2) by simp
  note l2 = applyMoveAndTurn_players(1)[OF assms(8)]
  note m2 = applyMoveAndTurn_mover[OF assms(8) t1]
  have il: "i < length (twoPlayer b1)" using l1 assms(2,3) by simp
  have lh2: "lastHorizontal (twoPlayer b2 ! i) = True" using m2(3)[OF il] oi lh1 by simp
  have ti2: "turn (twoPlayer b2 ! i)" using m2(4)[OF il] oi m1(2) by simp
  have t2: "findIdx turn (twoPlayer b2) = Some i"
    using findIdx_two[of "twoPlayer b2" i turn] l1 l2 assms(2,3) ti2 m2(2) by simp
  have g2: "getLocalMoves c (twoPlayer b2 ! i) b2 =
                candidate b2 c (neighbor b2 (row c + direction c) (column c))
              @ candidate b2 c (neighbor b2 (row c + 2 * direction c) (column c))" for c
    using lh2 by (simp add: getLocalMoves_def Let_def)
  have wf2: "wfCells b2" using wfCells_apply[OF wfCells_apply[OF assms(1,6)] assms(8)] .
  note f = getAllPossibleMoves_facts[OF assms(9)]
  note g = getLocalMoves_facts[OF f(4)]
  have nl: "row (cells b2 ! t2) \<noteq> row (cells b2 ! s2)"
  proof
    assume eq: "row (cells b2 ! t2) = row (cells b2 ! s2)"
    have "t2 \<in> set (candidate b2 (cells b2 ! s2) (neighbor b2 (row (cells b2 ! s2) + direction (cells b2 ! s2)) (column (cells b2 ! s2))))
        \<or> t2 \<in> set (candidate b2 (cells b2 ! s2) (neighbor b2 (row (cells b2 ! s2) + 2 * direction (cells b2 ! s2)) (column (cells b2 ! s2))))"
      using f(4) unfolding g2 by simp
    then have "column (cells b2 ! t2) = column (cells b2 ! s2)"
      using candidate_facts(3) by blast
    then have "t2 = s2" using wfCells_unique[OF wf2 g(1) f(1) eq] by simp
    with g(2) show False by simp
  qed
  note m3 = applyMoveAndTurn_mover[OF assms(10) t2]
  have lh3: "lastHorizontal (twoPlayer b3 ! i) = False" using m3(1) nl by simp
  have g3: "getLocalMoves c (twoPlayer b3 ! i) b3 =
                candidate b3 c (neighbor b3 (row c + direction c) (column c))
              @ candidate b3 c (neighbor b3 (row c + 2 * direction c) (column c))
              @ candidate b3 c (neighbor b3 (row c) (jsRem (column c + 5) 6))
              @ candidate b3 c (neighbor b3 (row c) (jsRem (column c + 4) 6))
              @ candidate b3 c (neighbor b3 (row c) (jsRem (column c + 7) 6))
              @ candidate b3 c (neighbor b3 (row c) (jsRem (column c + 8) 6))" for c
    using lh3 by (simp add: getLocalMoves_def Let_def)
  show ?thesis using lh1 lh2 t2 g2 nl lh3 g3 by blast
qed

theorem lateral_lock_witness:
  "wfCells lockBoard \<and> length (twoPlayer lockBoard) = 2 \<and> (1::nat) < 2
   \<and> turn (twoPlayer lockBoard ! 1) = True \<and> turn (twoPlayer lockBoard ! (1 - 1)) = False
   \<and> row (cells lockBoard ! 7) = row (cells lockBoard ! 6)
   \<and> (\<exists>b1 b2 b3. applyMoveAndTurn lockBoard 6 7 3 = Inr b1
         \<and> applyMoveAndTurn b1 35 29 3 = Inr b2
         \<and> (7, 13) \<in> set (getAllPossibleMoves b2 (twoPlayer b2 ! 1))
         \<and> applyMoveAndTurn b2 7 13 3 = Inr b3
         \<and> lastHorizontal (twoPlayer b1 ! 1) = True
         \<and> lastHorizontal (twoPlayer b2 ! 1) = True
         \<and> getLocalMoves (cells b2 ! 7) (twoPlayer b2 ! 1) b2 = [13, 19]
         \<and> row (cells b2 ! 13) \<noteq> row (cells b2 ! 7)
         \<and> lastHorizontal (twoPlayer b3 ! 1) = False
         \<and> getLocalMoves (cells b3 ! 13) (twoPlayer b3 ! 1) b3 = [19, 25, 12, 17, 14, 15])"
proof -
  define b1 where "b1 = projr (applyMoveAndTurn lockBoard 6 7 3)"
  define b2 where "b2 = projr (applyMoveAndTurn b1 35 29 3)"
  define b3 where "b3 = projr (applyMoveAndTurn b2 7 13 3)"
  have h1: "wfCells lockBoard"
    unfolding lockBoard_def by (intro wfCells_putTower wfCells_emptyBoard)
  have h2: "length (twoPlayer lockBoard) = 2" "(1::nat) < 2"
    "turn (twoPlayer lockBoard ! 1) = True" "turn (twoPlayer lockBoard ! (1 - 1)) = False"
    by code_simp+
  have h7: "row (cells lockBoard ! 7) = row (cells lockBoard ! 6)" by code_simp
  have a1: "applyMoveAndTurn lockBoard 6 7 3 = Inr b1" unfolding b1_def by code_simp
  have a2: "applyMoveAndTurn b1 35 29 3 = Inr b2" unfolding b2_def b1_def by code_simp
  have a3: "(7, 13) \<in> set (getAllPossibleMoves b2 (twoPlayer b2 ! 1))" unfolding b2_def b1_def by code_simp
  have a4: "applyMoveAndTurn b2 7 13 3 = Inr b3" unfolding b3_def b2_def b1_def by code_simp
  have e2: "getLocalMoves (cells b2 ! 7) (twoPlayer b2 ! 1) b2 = [13, 19]" unfolding b2_def b1_def by code_simp
  have e3: "getLocalMoves (cells b3 ! 13) (twoPlayer b3 ! 1) b3 = [19, 25, 12, 17, 14, 15]"
    unfolding b3_def b2_def b1_def by code_simp
  show ?thesis
    using lateral_lock[OF h1 h2 a1 h7 a2 a3 a4] h1 h2 h7 a1 a2 a3 a4 e2 e3 by blast
qed

subsection \<open>What the search leaves behind\<close>

lemma eraseWinner_set_winner:
  "eraseWinner (b\<lparr>twoPlayer := (twoPlayer b)[i := (twoPlayer b ! i)\<lparr>winner := w\<rparr>]\<rparr>) = eraseWinner b"
proof (cases "i < length (twoPlayer b)")
  case True
  then show ?thesis
    by (simp add: eraseWinner_def map_update list_update_same_conv)
next
  case False
  then have "(twoPlayer b)[i := (twoPlayer b ! i)\<lparr>winner := w\<rparr>] = twoPlayer b"
    by (intro list_update_beyond) simp
  then show ?thesis by simp
qed

lemma checkWin_state:
  assumes "checkWin b i cfg = Inr (w, b1)"
  shows "eraseWinner b1 = eraseWinner b" "\<not> w \<Longrightarrow> b1 = b"
proof -
  have "b1 = b \<or> (w \<and> b1 = b\<lparr>twoPlayer := (twoPlayer b)[i := (twoPlayer b ! i)\<lparr>winner := True\<rparr>]\<rparr>)"
    using assms unfolding checkWin_def Let_def
    by (auto split: if_splits option.splits)
  then show "eraseWinner b1 = eraseWinner b" "\<not> w \<Longrightarrow> b1 = b"
    using eraseWinner_set_winner[of b i True] by auto
qed

lemma getTerminalNodeState_state:
  assumes "getTerminalNodeState b d cfg = Inr (r, b1)"
  shows "eraseWinner b1 = eraseWinner b" "r = None \<Longrightarrow> b1 = b"
proof -
  obtain bi where bi: "findIdx (\<lambda>p. isMaximizing p = True) (twoPlayer b) = Some bi"
    using assms unfolding getTerminalNodeState_def Let_def by (auto split: option.splits)
  obtain w1 c1 where c1: "checkWin b bi cfg = Inr (w1, c1)"
    using assms bi unfolding getTerminalNodeState_def Let_def by (auto split: sum.splits)
  note s1 = checkWin_state[OF c1]
  show "eraseWinner b1 = eraseWinner b" "r = None \<Longrightarrow> b1 = b"
  proof (atomize (full), cases w1)
    case True
    then show "eraseWinner b1 = eraseWinner b \<and> (r = None \<longrightarrow> b1 = b)"
      using assms bi c1 s1(1) unfolding getTerminalNodeState_def Let_def by auto
  next
    case False
    then have cb: "c1 = b" using s1(2) by simp
    obtain ui where ui: "findIdx (\<lambda>p. isMaximizing p = False) (twoPlayer b) = Some ui"
      using assms bi c1 False unfolding getTerminalNodeState_def Let_def by (auto split: option.splits)
    obtain w2 c2 where c2: "checkWin b ui cfg = Inr (w2, c2)"
      using assms bi c1 False ui cb unfolding getTerminalNodeState_def Let_def by (auto split: sum.splits)
    note s2 = checkWin_state[OF c2]
    show "eraseWinner b1 = eraseWinner b \<and> (r = None \<longrightarrow> b1 = b)"
    proof (cases w2)
      case True
      then show ?thesis
        using assms bi c1 False ui cb c2 s2(1) unfolding getTerminalNodeState_def Let_def by auto
    next
      case w2f: False
      then have "c2 = b" using s2(2) by simp
      then show ?thesis
        using assms bi c1 False ui cb c2 w2f unfolding getTerminalNodeState_def Let_def
        by (auto split: if_splits sum.splits)
    qed
  qed
qed

lemma wfCells_erased: "eraseWinner b = eraseWinner b' \<Longrightarrow> wfCells b \<Longrightarrow> wfCells b'"
  by (simp add: eraseWinner_eq_iff wfCells_def)

lemma wfPlayers_eraseWinner: "wfPlayers (eraseWinner b) = wfPlayers b"
  by (simp add: wfPlayers_def eraseWinner_def o_def list_all_iff)

lemma wfPlayers_erased: "eraseWinner b = eraseWinner b' \<Longrightarrow> wfPlayers b \<Longrightarrow> wfPlayers b'"
  using wfPlayers_eraseWinner by metis

lemma stackTowers_caps:
  assumes "stackTowers src tgt (Some p) m = Inr (st, Some p1)"
    and "self (vault p) \<le> 6" "opponent (vault p) \<le> 6"
  shows "self (vault p1) \<le> 6" "opponent (vault p1) \<le> 6"
proof -
  have "p1 = p \<or> p1 = snd (stackLoop src tgt p m)"
    using assms(1) unfolding stackTowers_def by (auto split: if_splits prod.splits)
  then show "self (vault p1) \<le> 6" "opponent (vault p1) \<le> 6"
    using assms(2,3) stackLoop_closed[OF assms(2,3), of src tgt m] by (auto simp: credited_def)
qed

lemma wfPlayers_apply:
  assumes "wfPlayers b" "applyMoveAndTurn b s t m = Inr b1"
  shows "wfPlayers b1"
proof -
  let ?ps = "twoPlayer b"
  from applyMoveAndTurn_Inr[OF assms(2)] obtain i st v where
    f: "i < length ?ps"
       "stackTowers (svgLayout (cells b ! s)) (svgLayout (cells b ! t)) (Some (?ps ! i)) m
          = Inr (st, Some ((?ps ! i)\<lparr>vault := v\<rparr>))"
       "twoPlayer b1 = switchPlayer (?ps[i := moved (cells b ! s) (cells b ! t) ((?ps ! i)\<lparr>vault := v\<rparr>)])"
    by blast
  note caps = wfPlayers_nth[OF assms(1)]
  have v: "self v \<le> 6" "opponent v \<le> 6"
    using stackTowers_caps[OF f(2) caps(2,3)[OF f(1)]] by simp_all
  have len: "length (twoPlayer b1) = length ?ps" unfolding f(3) by (simp add: switchPlayer_def)
  have pids: "map pid (twoPlayer b1) = map pid ?ps"
    unfolding f(3) using f(1)
    by (auto simp: switchPlayer_def moved_def list_eq_iff_nth_eq nth_list_update)
  have "safetyTower (twoPlayer b1 ! k) \<le> 6 \<and> self (vault (twoPlayer b1 ! k)) \<le> 6 \<and> opponent (vault (twoPlayer b1 ! k)) \<le> 6"
    if "k < length ?ps" for k
    unfolding f(3) using that caps[OF that] v
    by (cases "k = i") (simp_all add: switchPlayer_def moved_def)
  then show ?thesis
    using assms(1) unfolding wfPlayers_def pids by (simp add: list_all_length len)
qed

text \<open>A recursive call that gives the board back up to the winner flags.\<close>

lemma maxLoop_state:
  assumes rec: "\<And>c a be v c'. wfCells c \<Longrightarrow> wfPlayers c \<Longrightarrow> rec c a be = Some (Inr (v, c')) \<Longrightarrow> eraseWinner c' = eraseWinner c"
    and "wfCells b" "wfPlayers b"
    and "maxLoop rec cfg b alpha beta ms best = Some (Inr (v, b'))"
  shows "eraseWinner b' = eraseWinner b"
  using assms(2-4)
proof (induction ms arbitrary: b alpha best)
  case Nil
  then show ?case by simp
next
  case (Cons mv rest)
  obtain b1 where b1: "applyMoveAndTurn b (fst mv) (snd mv) (maxStackSize cfg) = Inr b1"
    using Cons.prems(3) by (auto simp: Let_def split: sum.splits)
  obtain ev b2 where b2: "rec b1 alpha beta = Some (Inr (ev, b2))"
    using Cons.prems(3) b1 by (auto simp: Let_def split: sum.splits option.splits)
  obtain b3 where b3: "undoMove b2 (logMove b (fst mv) (snd mv)) = Inr b3"
    using Cons.prems(3) b1 b2 by (auto simp: Let_def split: sum.splits)
  have e2: "eraseWinner b2 = eraseWinner b1"
    using rec[OF wfCells_apply[OF Cons.prems(1) b1] wfPlayers_apply[OF Cons.prems(2) b1] b2] .
  have e3: "eraseWinner b3 = eraseWinner b"
    using undo_apply[OF Cons.prems(1,2) b1 e2] b3 by auto
  have wf3: "wfCells b3" "wfPlayers b3"
    using wfCells_erased[OF e3[symmetric] Cons.prems(1)] wfPlayers_erased[OF e3[symmetric] Cons.prems(2)] .
  have "b' = b3 \<or> maxLoop rec cfg b3 (max alpha (max best ev)) beta rest (max best ev) = Some (Inr (v, b'))"
    using Cons.prems(3) b1 b2 b3 by (auto simp: Let_def split: if_splits)
  then show ?case using e3 Cons.IH[OF wf3] by auto
qed

lemma minLoop_state:
  assumes rec: "\<And>c a be v c'. wfCells c \<Longrightarrow> wfPlayers c \<Longrightarrow> rec c a be = Some (Inr (v, c')) \<Longrightarrow> eraseWinner c' = eraseWinner c"
    and "wfCells b" "wfPlayers b"
    and "minLoop rec cfg b alpha beta ms best = Some (Inr (v, b'))"
  shows "eraseWinner b' = eraseWinner b"
  using assms(2-4)
proof (induction ms arbitrary: b beta best)
  case Nil
  then show ?case by simp
next
  case (Cons mv rest)
  obtain b1 where b1: "applyMoveAndTurn b (fst mv) (snd mv) (maxStackSize cfg) = Inr b1"
    using Cons.prems(3) by (auto simp: Let_def split: sum.splits)
  obtain ev b2 where b2: "rec b1 alpha beta = Some (Inr (ev, b2))"
    using Cons.prems(3) b1 by (auto simp: Let_def split: sum.splits option.splits)
  obtain b3 where b3: "undoMove b2 (logMove b (fst mv) (snd mv)) = Inr b3"
    using Cons.prems(3) b1 b2 by (auto simp: Let_def split: sum.splits)
  have e2: "eraseWinner b2 = eraseWinner b1"
    using rec[OF wfCells_apply[OF Cons.prems(1) b1] wfPlayers_apply[OF Cons.prems(2) b1] b2] .
  have e3: "eraseWinner b3 = eraseWinner b"
    using undo_apply[OF Cons.prems(1,2) b1 e2] b3 by auto
  have wf3: "wfCells b3" "wfPlayers b3"
    using wfCells_erased[OF e3[symmetric] Cons.prems(1)] wfPlayers_erased[OF e3[symmetric] Cons.prems(2)] .
  have "b' = b3 \<or> minLoop rec cfg b3 alpha (min beta (min best ev)) rest (min best ev) = Some (Inr (v, b'))"
    using Cons.prems(3) b1 b2 b3 by (auto simp: Let_def split: if_splits)
  then show ?case using e3 Cons.IH[OF wf3] by auto
qed

lemma minimax_state:
  assumes "wfCells b" "wfPlayers b" "minimax n cfg b d alpha beta = Some (Inr (v, b'))"
  shows "eraseWinner b' = eraseWinner b"
  using assms
proof (induction n arbitrary: b d alpha beta v b')
  case 0
  then show ?case by simp
next
  case (Suc n)
  let ?rec = "\<lambda>c a be. minimax n cfg c (d + 1) a be"
  have rec: "\<And>c a be v c'. wfCells c \<Longrightarrow> wfPlayers c \<Longrightarrow> ?rec c a be = Some (Inr (v, c')) \<Longrightarrow> eraseWinner c' = eraseWinner c"
    using Suc.IH by blast
  obtain r b1 where t: "getTerminalNodeState b d cfg = Inr (r, b1)"
    using Suc.prems(3) by (auto simp: Let_def split: sum.splits)
  note s = getTerminalNodeState_state[OF t]
  show ?case
  proof (cases r)
    case (Some ev)
    then have "b' = b1" using Suc.prems(3) t by (simp add: Let_def)
    then show ?thesis using s(1) by simp
  next
    case None
    then have b1: "b1 = b" using s(2) by simp
    obtain i where i: "findIdx (\<lambda>p. turn p = True) (twoPlayer b) = Some i"
      using Suc.prems(3) t None by (auto simp: Let_def split: option.splits)
    have "maxLoop ?rec cfg b alpha beta (getAllPossibleMoves b (twoPlayer b ! i)) NegInf = Some (Inr (v, b'))
        \<or> minLoop ?rec cfg b alpha beta (getAllPossibleMoves b (twoPlayer b ! i)) PosInf = Some (Inr (v, b'))"
      using Suc.prems(3) t None b1 i by (auto simp: Let_def split: if_splits)
    moreover have "eraseWinner b' = eraseWinner b"
      if "maxLoop ?rec cfg b alpha beta ms best = Some (Inr (v, b'))" for ms best
      by (rule maxLoop_state[where rec="?rec", OF _ Suc.prems(1,2) that]) (rule rec; assumption)
    moreover have "eraseWinner b' = eraseWinner b"
      if "minLoop ?rec cfg b alpha beta ms best = Some (Inr (v, b'))" for ms best
      by (rule minLoop_state[where rec="?rec", OF _ Suc.prems(1,2) that]) (rule rec; assumption)
    ultimately show ?thesis by blast
  qed
qed

text \<open>
  C2 as stated fails: \<^verbatim>\<open>checkWin\<close>, called by the leaf evaluation, sets the \<^verbatim>\<open>winner\<close> flag
  and \<^verbatim>\<open>undoMove\<close> does not restore it. From \<open>homeBoard\<close> the user's first move secures a
  tower, the search one level down marks the user as winner, and the call returns with
  that flag set on a board whose flag was clear at entry.
\<close>

theorem minimax_restore_counterexample:
  "wfCells homeBoard \<and> wfPlayers homeBoard
   \<and> minimax 2 factorySettings homeBoard 0 NegInf PosInf = Some (Inr (NegInf, markWinner 1 homeBoard))
   \<and> markWinner 1 homeBoard \<noteq> homeBoard
   \<and> winner (twoPlayer homeBoard ! 1) = False
   \<and> winner (twoPlayer (markWinner 1 homeBoard) ! 1) = True"
proof -
  have "wfCells homeBoard" unfolding homeBoard_def by (intro wfCells_putTower wfCells_emptyBoard)
  moreover have "wfPlayers homeBoard" by code_simp
  moreover have "minimax 2 factorySettings homeBoard 0 NegInf PosInf = Some (Inr (NegInf, markWinner 1 homeBoard))"
    by code_simp
  moreover have "markWinner 1 homeBoard \<noteq> homeBoard" by code_simp
  moreover have "winner (twoPlayer homeBoard ! 1) = False \<and> winner (twoPlayer (markWinner 1 homeBoard) ! 1) = True"
    by code_simp
  ultimately show ?thesis by blast
qed

text \<open>
  C2, amended. On a board of the data model, when \<^verbatim>\<open>minimax(board, depth, alpha, beta)\<close>
  returns, all cells and every field of both players other than \<^verbatim>\<open>winner\<close> are as they were
  at entry.
\<close>

theorem minimax_restores_up_to_winner:
  assumes "wfCells b" "wfPlayers b" "minimax n cfg b d alpha beta = Some (Inr (v, b'))"
  shows "cells b' = cells b
       \<and> map (\<lambda>p. p\<lparr>winner := False\<rparr>) (twoPlayer b') = map (\<lambda>p. p\<lparr>winner := False\<rparr>) (twoPlayer b)"
  using minimax_state[OF assms] by (simp add: eraseWinner_eq_iff)

theorem minimax_restores_up_to_winner_witness:
  "wfCells homeBoard \<and> wfPlayers homeBoard
   \<and> minimax 2 factorySettings homeBoard 0 NegInf PosInf = Some (Inr (NegInf, markWinner 1 homeBoard))
   \<and> cells (markWinner 1 homeBoard) = cells homeBoard
   \<and> map (\<lambda>p. p\<lparr>winner := False\<rparr>) (twoPlayer (markWinner 1 homeBoard))
       = map (\<lambda>p. p\<lparr>winner := False\<rparr>) (twoPlayer homeBoard)"
proof -
  have h1: "wfCells homeBoard" unfolding homeBoard_def by (intro wfCells_putTower wfCells_emptyBoard)
  have h2: "wfPlayers homeBoard" by code_simp
  have h3: "minimax 2 factorySettings homeBoard 0 NegInf PosInf = Some (Inr (NegInf, markWinner 1 homeBoard))"
    by code_simp
  show ?thesis using minimax_restores_up_to_winner[OF h1 h2 h3] h1 h2 h3 by blast
qed

subsection \<open>The search does not read the winner flags\<close>

lemma findIdx_map: "findIdx P (map f xs) = findIdx (\<lambda>x. P (f x)) xs"
  by (induction xs) simp_all

lemma eraseWinner_players_map:
  "eraseWinner b = eraseWinner b' \<Longrightarrow>
     map (\<lambda>p. p\<lparr>winner := False\<rparr>) (twoPlayer b) = map (\<lambda>p. p\<lparr>winner := False\<rparr>) (twoPlayer b')"
  by (simp add: eraseWinner_eq_iff)

lemma findIdx_erased:
  assumes "eraseWinner b = eraseWinner b'" and "\<And>p. P (p\<lparr>winner := False\<rparr>) = P p"
  shows "findIdx P (twoPlayer b) = findIdx P (twoPlayer b')"
proof -
  have "findIdx P (twoPlayer b) = findIdx P (map (\<lambda>p. p\<lparr>winner := False\<rparr>) (twoPlayer b))"
    by (simp add: findIdx_map assms(2))
  also have "\<dots> = findIdx P (map (\<lambda>p. p\<lparr>winner := False\<rparr>) (twoPlayer b'))"
    by (simp only: eraseWinner_players_map[OF assms(1)])
  also have "\<dots> = findIdx P (twoPlayer b')"
    by (simp add: findIdx_map assms(2))
  finally show ?thesis .
qed

lemma checkWin_shape:
  "checkWin b i cfg =
     (case map_sum id fst (checkWin b i cfg) of
        Inl e \<Rightarrow> Inl e
      | Inr w \<Rightarrow> Inr (w, if w then markWinner i b else b))"
  unfolding checkWin_def Let_def markWinner_def
  by (auto split: option.splits)

lemma checkWin_erased:
  assumes "eraseWinner b = eraseWinner b'"
  shows "map_sum id fst (checkWin b i cfg) = map_sum id fst (checkWin b' i cfg)"
proof -
  have c: "cells b = cells b'" using assms by (simp add: eraseWinner_eq_iff)
  have l: "length (twoPlayer b) = length (twoPlayer b')" using eraseWinner_players(1)[OF assms] .
  show ?thesis
  proof (cases "i < length (twoPlayer b')")
    case False
    then show ?thesis using l by (simp add: checkWin_def)
  next
    case True
    note f = erased_fields[OF eraseWinner_players(2)[OF assms True]]
    have o: "findIdx (\<lambda>q. pid q \<noteq> pid (twoPlayer b ! i)) (twoPlayer b)
           = findIdx (\<lambda>q. pid q \<noteq> pid (twoPlayer b' ! i)) (twoPlayer b')"
      unfolding f(1) by (rule findIdx_erased[OF assms]) simp
    have opp: "pid (twoPlayer b ! j) = pid (twoPlayer b' ! j)"
      if "findIdx (\<lambda>q. pid q \<noteq> pid (twoPlayer b' ! i)) (twoPlayer b') = Some j" for j
    proof -
      have "j < length (twoPlayer b')" using that by (simp add: findIdx_Some)
      from erased_fields(1)[OF eraseWinner_players(2)[OF assms this]] show ?thesis .
    qed
    show ?thesis
      unfolding checkWin_def Let_def o c using True l f opp
      by (auto split: option.splits)
  qed
qed

lemma getTerminalNodeState_value:
  "map_sum id fst (getTerminalNodeState b d cfg) =
     (case findIdx (\<lambda>p. isMaximizing p = True) (twoPlayer b) of
        None \<Rightarrow> Inl TypeError
      | Some bi \<Rightarrow>
         (case map_sum id fst (checkWin b bi cfg) of
            Inl e \<Rightarrow> Inl e
          | Inr True \<Rightarrow> Inr (Some PosInf)
          | Inr False \<Rightarrow>
             (case findIdx (\<lambda>p. isMaximizing p = False) (twoPlayer b) of
                None \<Rightarrow> Inl TypeError
              | Some ui \<Rightarrow>
                 (case map_sum id fst (checkWin b ui cfg) of
                    Inl e \<Rightarrow> Inl e
                  | Inr True \<Rightarrow> Inr (Some NegInf)
                  | Inr False \<Rightarrow>
                     if d = depth cfg then
                       map_sum id (\<lambda>acc. Some (Fin (heuristicScore cfg (twoPlayer b ! bi) (twoPlayer b ! ui) acc)))
                         (evalCells cfg (pid (twoPlayer b ! bi)) (pid (twoPlayer b ! ui)) (cells b)
                            \<lparr>botTowers = 0, userTowers = 0, botTowerSafetyWeight = 0,
                             userTowerSafetyWeight = 0, botTowerTotalSafetyDistance = 0,
                             userTowerTotalSafetyDistance = 0\<rparr>)
                     else Inr None))))"
proof (cases "findIdx (\<lambda>p. isMaximizing p = True) (twoPlayer b)")
  case None
  then show ?thesis by (simp add: getTerminalNodeState_def)
next
  case (Some bi)
  show ?thesis
  proof (cases "checkWin b bi cfg")
    case (Inl e)
    then show ?thesis using Some by (simp add: getTerminalNodeState_def)
  next
    case (Inr wc)
    then obtain w1 c1 where c1: "checkWin b bi cfg = Inr (w1, c1)" by (cases wc) simp
    show ?thesis
    proof (cases w1)
      case True
      then show ?thesis using Some c1 by (simp add: getTerminalNodeState_def)
    next
      case False
      then have cb: "c1 = b" using checkWin_state(2)[OF c1] by simp
      show ?thesis
      proof (cases "findIdx (\<lambda>p. isMaximizing p = False) (twoPlayer b)")
        case None
        then show ?thesis using Some c1 False cb by (simp add: getTerminalNodeState_def)
      next
        case ui: (Some ui)
        show ?thesis
        proof (cases "checkWin b ui cfg")
          case (Inl e)
          then show ?thesis using Some c1 False cb ui by (simp add: getTerminalNodeState_def)
        next
          case (Inr wc2)
          then obtain w2 c2 where c2: "checkWin b ui cfg = Inr (w2, c2)" by (cases wc2) simp
          show ?thesis
          proof (cases w2)
            case True
            then show ?thesis using Some c1 False cb ui c2 by (simp add: getTerminalNodeState_def)
          next
            case w2f: False
            then have "c2 = b" using checkWin_state(2)[OF c2] by simp
            then show ?thesis using Some c1 False cb ui c2 w2f
              by (simp add: getTerminalNodeState_def split: sum.splits)
          qed
        qed
      qed
    qed
  qed
qed

lemma getTerminalNodeState_erased:
  assumes "eraseWinner b = eraseWinner b'"
  shows "map_sum id fst (getTerminalNodeState b d cfg) = map_sum id fst (getTerminalNodeState b' d cfg)"
proof -
  have c: "cells b = cells b'" using assms by (simp add: eraseWinner_eq_iff)
  have fb: "findIdx (\<lambda>p. isMaximizing p = True) (twoPlayer b) = findIdx (\<lambda>p. isMaximizing p = True) (twoPlayer b')"
    by (rule findIdx_erased[OF assms]) simp
  have fu: "findIdx (\<lambda>p. isMaximizing p = False) (twoPlayer b) = findIdx (\<lambda>p. isMaximizing p = False) (twoPlayer b')"
    by (rule findIdx_erased[OF assms]) simp
  have pl: "pid (twoPlayer b ! j) = pid (twoPlayer b' ! j) \<and> vault (twoPlayer b ! j) = vault (twoPlayer b' ! j)"
    if "findIdx P (twoPlayer b') = Some j" for j P
  proof -
    have "j < length (twoPlayer b')" using that by (simp add: findIdx_Some)
    from erased_fields(1,6)[OF eraseWinner_players(2)[OF assms this]] show ?thesis by simp
  qed
  have h: "heuristicScore cfg p q acc = heuristicScore cfg p' q' acc" if "vault p = vault p'" "vault q = vault q'" for p q p' q' acc
    by (simp only: heuristicScore_def that)
  show ?thesis
  proof (cases "findIdx (\<lambda>p. isMaximizing p = True) (twoPlayer b')")
    case None
    show ?thesis
      unfolding getTerminalNodeState_value fb None by simp
  next
    case (Some bi)
    show ?thesis
    proof (cases "findIdx (\<lambda>p. isMaximizing p = False) (twoPlayer b')")
      case None
      show ?thesis
        unfolding getTerminalNodeState_value fb fu Some None checkWin_erased[OF assms] option.case
        by (rule refl)
    next
      case ui: (Some ui)
      note pb = pl[OF Some] and pu = pl[OF ui]
      have hs: "(\<lambda>acc. Some (Fin (heuristicScore cfg (twoPlayer b ! bi) (twoPlayer b ! ui) acc)))
              = (\<lambda>acc. Some (Fin (heuristicScore cfg (twoPlayer b' ! bi) (twoPlayer b' ! ui) acc)))"
        using h[of "twoPlayer b ! bi" "twoPlayer b' ! bi" "twoPlayer b ! ui" "twoPlayer b' ! ui"] pb pu by simp
      show ?thesis
        unfolding getTerminalNodeState_value fb fu Some ui checkWin_erased[OF assms] option.case c hs
          conjunct1[OF pb] conjunct1[OF pu]
        by (rule refl)
    qed
  qed
qed

lemma getAllPossibleMoves_cong:
  assumes "cells b = cells b'" "pid p = pid p'" "lastHorizontal p = lastHorizontal p'"
  shows "getAllPossibleMoves b p = getAllPossibleMoves b' p'"
proof -
  have n: "neighbor b = neighbor b'" unfolding neighbor_def assms(1) ..
  have c: "candidate b = candidate b'" unfolding candidate_def assms(1) ..
  have g: "getLocalMoves x p b = getLocalMoves x p' b'" for x
    unfolding getLocalMoves_def n c assms(3) ..
  show ?thesis unfolding getAllPossibleMoves_def g assms(1,2) ..
qed

lemma stackLoop_winner:
  "stackLoop src tgt (p\<lparr>winner := w\<rparr>) m
     = (fst (stackLoop src tgt p m), (snd (stackLoop src tgt p m))\<lparr>winner := w\<rparr>)"
proof (induction src arbitrary: tgt p)
  case Nil
  then show ?case by simp
next
  case (Cons x xs)
  show ?case
  proof (cases "int (length (tgt @ [x])) > m")
    case True
    let ?v = "if hd (tgt @ [x]) = pid p then \<lparr>self = self (vault p) + 1, opponent = opponent (vault p)\<rparr>
              else \<lparr>self = self (vault p), opponent = opponent (vault p) + 1\<rparr>"
    have s1: "stackLoop (x # xs) tgt p m = stackLoop xs (tl (tgt @ [x])) (set_vault ?v p) m"
      using True by (simp add: Let_def)
    have sv: "set_vault ?v (p\<lparr>winner := w\<rparr>) = (set_vault ?v p)\<lparr>winner := w\<rparr>"
      by (simp add: set_vault_def)
    have "stackLoop (x # xs) tgt (p\<lparr>winner := w\<rparr>) m = stackLoop xs (tl (tgt @ [x])) (set_vault ?v (p\<lparr>winner := w\<rparr>)) m"
      using True by (simp add: Let_def)
    then have s2: "stackLoop (x # xs) tgt (p\<lparr>winner := w\<rparr>) m = stackLoop xs (tl (tgt @ [x])) ((set_vault ?v p)\<lparr>winner := w\<rparr>) m"
      unfolding sv .
    show ?thesis unfolding s1 s2 by (rule Cons.IH)
  next
    case False
    have s1: "stackLoop (x # xs) tgt p m = stackLoop xs (tgt @ [x]) p m"
      using False by (simp add: Let_def)
    have s2: "stackLoop (x # xs) tgt (p\<lparr>winner := w\<rparr>) m = stackLoop xs (tgt @ [x]) (p\<lparr>winner := w\<rparr>) m"
      using False by (simp add: Let_def)
    show ?thesis unfolding s1 s2 by (rule Cons.IH)
  qed
qed

lemma stackTowers_winner:
  assumes "stackTowers src tgt (Some p) m = Inr (st, Some p1)"
  shows "stackTowers src tgt (Some (p\<lparr>winner := w\<rparr>)) m = Inr (st, Some (p1\<lparr>winner := w\<rparr>))"
proof -
  note f = stackTowers_Some(1,2)[OF assms]
  show ?thesis
  proof (cases "tgt = []")
    case True
    then have "st = src" "p1 = p" using assms f(1) by (simp_all add: stackTowers_def)
    then show ?thesis using True f(1) by (simp add: stackTowers_def)
  next
    case False
    then have "st = fst (stackLoop src tgt p m)" "p1 = snd (stackLoop src tgt p m)"
      using assms f by (simp_all add: stackTowers_def split: prod.splits)
    then show ?thesis using False f by (simp add: stackTowers_def stackLoop_winner)
  qed
qed

lemma erased_self: "(p::player)\<lparr>winner := False\<rparr> = q\<lparr>winner := False\<rparr> \<Longrightarrow> q = p\<lparr>winner := winner q\<rparr>"
  using erased_fields[of p q] by (intro player.equality) simp_all

lemma applyMoveAndTurn_erased:
  assumes "eraseWinner b = eraseWinner b'" "applyMoveAndTurn b s t m = Inr b1"
  shows "\<exists>b1'. applyMoveAndTurn b' s t m = Inr b1' \<and> eraseWinner b1' = eraseWinner b1"
proof -
  let ?ps = "twoPlayer b" and ?ps' = "twoPlayer b'"
  let ?src = "cells b ! s" and ?tgt = "cells b ! t"
  from applyMoveAndTurn_Inr[OF assms(2)] obtain i st v where
    f: "s < length (cells b)" "t < length (cells b)"
       "findIdx turn ?ps = Some i" "i < length ?ps"
       "stackTowers (svgLayout ?src) (svgLayout ?tgt) (Some (?ps ! i)) m = Inr (st, Some ((?ps ! i)\<lparr>vault := v\<rparr>))"
       "cells b1 = (cells b)[t := landed ?src ?tgt st, s := cleared ?src]"
       "twoPlayer b1 = switchPlayer (?ps[i := moved ?src ?tgt ((?ps ! i)\<lparr>vault := v\<rparr>)])"
    by blast
  have c: "cells b' = cells b" using assms(1) by (simp add: eraseWinner_eq_iff)
  have l: "length ?ps' = length ?ps" using eraseWinner_players(1)[OF assms(1)] by simp
  have e: "(?ps ! k)\<lparr>winner := False\<rparr> = (?ps' ! k)\<lparr>winner := False\<rparr>" if "k < length ?ps" for k
    using eraseWinner_players(2)[OF assms(1)] that l by simp
  have t': "findIdx turn ?ps' = Some i"
    using findIdx_erased[OF assms(1), of turn] f(3) by simp
  have pi: "?ps' ! i = (?ps ! i)\<lparr>winner := winner (?ps' ! i)\<rparr>"
    using erased_self[OF e[OF f(4)]] .
  have "stackTowers (svgLayout ?src) (svgLayout ?tgt) (Some ((?ps ! i)\<lparr>winner := winner (?ps' ! i)\<rparr>)) m
               = Inr (st, Some ((?ps ! i)\<lparr>vault := v, winner := winner (?ps' ! i)\<rparr>))"
    using stackTowers_winner[OF f(5)] by simp
  moreover have "(?ps ! i)\<lparr>vault := v, winner := winner (?ps' ! i)\<rparr> = (?ps' ! i)\<lparr>vault := v\<rparr>"
    by (subst (2) pi) simp
  ultimately have st': "stackTowers (svgLayout (cells b' ! s)) (svgLayout (cells b' ! t)) (Some (?ps' ! i)) m
               = Inr (st, Some ((?ps' ! i)\<lparr>vault := v\<rparr>))"
    unfolding c using pi by simp
  have pm: "playMove s t b' m = Inr (b'\<lparr>cells := (cells b')[t := landed (cells b' ! s) (cells b' ! t) st, s := cleared (cells b' ! s)],
                 twoPlayer := ?ps'[i := moved (cells b' ! s) (cells b' ! t) ((?ps' ! i)\<lparr>vault := v\<rparr>)]\<rparr>)"
    using playMove_normal[OF _ _ t' st'] f(1,2) c by simp
  let ?b1' = "b'\<lparr>cells := (cells b)[t := landed ?src ?tgt st, s := cleared ?src],
                 twoPlayer := switchPlayer (?ps'[i := moved ?src ?tgt ((?ps' ! i)\<lparr>vault := v\<rparr>)])\<rparr>"
  have a: "applyMoveAndTurn b' s t m = Inr ?b1'"
    unfolding applyMoveAndTurn_def pm by (simp add: c)
  have "(twoPlayer ?b1' ! k)\<lparr>winner := False\<rparr> = (twoPlayer b1 ! k)\<lparr>winner := False\<rparr>" if k: "k < length ?ps" for k
  proof -
    note ek = erased_fields[OF e[OF k]]
    show ?thesis
      unfolding f(7) using k l ek
      by (cases "k = i"; intro player.equality) (simp_all add: switchPlayer_def moved_def)
  qed
  then have "map (\<lambda>p. p\<lparr>winner := False\<rparr>) (twoPlayer ?b1') = map (\<lambda>p. p\<lparr>winner := False\<rparr>) (twoPlayer b1)"
    unfolding f(7) using l by (simp add: list_eq_iff_nth_eq switchPlayer_def)
  then have "eraseWinner ?b1' = eraseWinner b1"
    unfolding eraseWinner_eq_iff using f(6) by simp
  with a show ?thesis by blast
qed

subsection \<open>Windows of the pruned search\<close>

lemma NegInf_least [simp]: "NegInf \<le> x"
  by (cases x) (simp_all add: less_eq_score_def)

lemma PosInf_greatest [simp]: "x \<le> PosInf"
  by (cases x) (simp_all add: less_eq_score_def)

lemma NegInf_less_PosInf: "NegInf < PosInf"
  by (simp add: less_score_def)

lemma max_NegInf [simp]: "max NegInf x = x" "max x NegInf = x"
  by (simp_all add: max_def antisym)

lemma min_PosInf [simp]: "min PosInf x = x" "min x PosInf = x"
  by (simp_all add: min_def antisym)

lemma window_refl: "window a b v v"
  by (simp add: window_def)

lemma window_full:
  assumes "window NegInf PosInf v ab"
  shows "ab = v"
proof (cases ab)
  case NegInf
  then have "v \<le> NegInf" using assms by (simp add: window_def)
  then have "v = NegInf" by (intro antisym) simp_all
  with NegInf show ?thesis by simp
next
  case (Fin x)
  then have "NegInf < ab \<and> ab < PosInf" by (simp add: less_score_def less_eq_score_def)
  then show ?thesis using assms by (simp add: window_def)
next
  case PosInf
  then have "PosInf \<le> v" using assms by (simp add: window_def)
  then have "v = PosInf" by (intro antisym) simp_all
  with PosInf show ?thesis by simp
qed

lemma window_cut_max:
  assumes "best \<le> alpha" "alpha < beta" "window alpha beta v1 v1'" "beta \<le> max alpha (max best v1')"
  shows "window alpha beta (max v1 wr) (max best v1')"
  using assms unfolding window_def max_def by (auto split: if_splits)

lemma window_step_max:
  assumes "best \<le> alpha" "alpha < beta" "window alpha beta v1 v1'" "\<not> beta \<le> max alpha (max best v1')"
    and "max best v1' \<le> r" "window (max alpha (max best v1')) beta wr r"
  shows "window alpha beta (max v1 wr) r"
  using assms unfolding window_def max_def by (auto split: if_splits)

lemma window_cut_min:
  assumes "beta \<le> best" "alpha < beta" "window alpha beta v1 v1'" "min beta (min best v1') \<le> alpha"
  shows "window alpha beta (min v1 wr) (min best v1')"
  using assms unfolding window_def min_def by (auto split: if_splits)

lemma window_step_min:
  assumes "beta \<le> best" "alpha < beta" "window alpha beta v1 v1'" "\<not> min beta (min best v1') \<le> alpha"
    and "r \<le> min best v1'" "window alpha (min beta (min best v1')) wr r"
  shows "window alpha beta (min v1 wr) r"
  using assms unfolding window_def min_def by (auto split: if_splits)

subsection \<open>The reference search\<close>

lemma fullMax_shift:
  "fullMax rec cfg b ms best = map_option (map_sum id (max best)) (fullMax rec cfg b ms NegInf)"
proof (induction ms arbitrary: best)
  case Nil
  then show ?case by simp
next
  case (Cons mv rest)
  show ?case
  proof (cases "applyMoveAndTurn b (fst mv) (snd mv) (maxStackSize cfg)")
    case (Inl e)
    then show ?thesis by simp
  next
    case (Inr b1)
    show ?thesis
    proof (cases "rec b1")
      case None
      then show ?thesis using Inr by simp
    next
      case (Some r)
      show ?thesis
      proof (cases r)
        case (Inl e)
        then show ?thesis using Inr Some by simp
      next
        case v: (Inr v)
        have "fullMax rec cfg b (mv # rest) best = fullMax rec cfg b rest (max best v)"
          using Inr Some v by simp
        also have "\<dots> = map_option (map_sum id (max (max best v))) (fullMax rec cfg b rest NegInf)"
          by (rule Cons.IH)
        also have "\<dots> = map_option (map_sum id (max best)) (map_option (map_sum id (max v)) (fullMax rec cfg b rest NegInf))"
        proof -
          have "max (max best v) = (\<lambda>x. max best (max v x))" by (simp add: fun_eq_iff max.assoc)
          then show ?thesis by (simp add: option.map_comp sum.map_comp o_def id_def)
        qed
        also have "\<dots> = map_option (map_sum id (max best)) (fullMax rec cfg b rest v)"
          by (simp only: Cons.IH[of v, symmetric])
        also have "\<dots> = map_option (map_sum id (max best)) (fullMax rec cfg b (mv # rest) NegInf)"
          using Inr Some v by simp
        finally show ?thesis .
      qed
    qed
  qed
qed

lemma fullMin_shift:
  "fullMin rec cfg b ms best = map_option (map_sum id (min best)) (fullMin rec cfg b ms PosInf)"
proof (induction ms arbitrary: best)
  case Nil
  then show ?case by simp
next
  case (Cons mv rest)
  show ?case
  proof (cases "applyMoveAndTurn b (fst mv) (snd mv) (maxStackSize cfg)")
    case (Inl e)
    then show ?thesis by simp
  next
    case (Inr b1)
    show ?thesis
    proof (cases "rec b1")
      case None
      then show ?thesis using Inr by simp
    next
      case (Some r)
      show ?thesis
      proof (cases r)
        case (Inl e)
        then show ?thesis using Inr Some by simp
      next
        case v: (Inr v)
        have "fullMin rec cfg b (mv # rest) best = fullMin rec cfg b rest (min best v)"
          using Inr Some v by simp
        also have "\<dots> = map_option (map_sum id (min (min best v))) (fullMin rec cfg b rest PosInf)"
          by (rule Cons.IH)
        also have "\<dots> = map_option (map_sum id (min best)) (map_option (map_sum id (min v)) (fullMin rec cfg b rest PosInf))"
        proof -
          have "min (min best v) = (\<lambda>x. min best (min v x))" by (simp add: fun_eq_iff min.assoc)
          then show ?thesis by (simp add: option.map_comp sum.map_comp o_def id_def)
        qed
        also have "\<dots> = map_option (map_sum id (min best)) (fullMin rec cfg b rest v)"
          by (simp only: Cons.IH[of v, symmetric])
        also have "\<dots> = map_option (map_sum id (min best)) (fullMin rec cfg b (mv # rest) PosInf)"
          using Inr Some v by simp
        finally show ?thesis .
      qed
    qed
  qed
qed

text \<open>The first move of a reference loop that returns a score.\<close>

lemma fullMax_Cons:
  assumes "fullMax rec cfg b (mv # rest) NegInf = Some (Inr w)"
  shows "\<exists>b1 v1 wr. applyMoveAndTurn b (fst mv) (snd mv) (maxStackSize cfg) = Inr b1
           \<and> rec b1 = Some (Inr v1) \<and> fullMax rec cfg b rest NegInf = Some (Inr wr) \<and> w = max v1 wr"
proof -
  obtain b1 where b1: "applyMoveAndTurn b (fst mv) (snd mv) (maxStackSize cfg) = Inr b1"
    using assms by (auto split: sum.splits)
  obtain v1 where v1: "rec b1 = Some (Inr v1)"
    using assms b1 by (auto split: sum.splits option.splits)
  have "fullMax rec cfg b rest v1 = Some (Inr w)" using assms b1 v1 by simp
  then have "map_option (map_sum id (max v1)) (fullMax rec cfg b rest NegInf) = Some (Inr w)"
    by (simp only: fullMax_shift[of rec cfg b rest v1, symmetric])
  then obtain wr where "fullMax rec cfg b rest NegInf = Some (Inr wr)" "w = max v1 wr"
    by (cases "fullMax rec cfg b rest NegInf") (auto simp: map_sum_def split: sum.splits)
  with b1 v1 show ?thesis by blast
qed

lemma fullMin_Cons:
  assumes "fullMin rec cfg b (mv # rest) PosInf = Some (Inr w)"
  shows "\<exists>b1 v1 wr. applyMoveAndTurn b (fst mv) (snd mv) (maxStackSize cfg) = Inr b1
           \<and> rec b1 = Some (Inr v1) \<and> fullMin rec cfg b rest PosInf = Some (Inr wr) \<and> w = min v1 wr"
proof -
  obtain b1 where b1: "applyMoveAndTurn b (fst mv) (snd mv) (maxStackSize cfg) = Inr b1"
    using assms by (auto split: sum.splits)
  obtain v1 where v1: "rec b1 = Some (Inr v1)"
    using assms b1 by (auto split: sum.splits option.splits)
  have "fullMin rec cfg b rest v1 = Some (Inr w)" using assms b1 v1 by simp
  then have "map_option (map_sum id (min v1)) (fullMin rec cfg b rest PosInf) = Some (Inr w)"
    by (simp only: fullMin_shift[of rec cfg b rest v1, symmetric])
  then obtain wr where "fullMin rec cfg b rest PosInf = Some (Inr wr)" "w = min v1 wr"
    by (cases "fullMin rec cfg b rest PosInf") (auto simp: map_sum_def split: sum.splits)
  with b1 v1 show ?thesis by blast
qed

subsection \<open>The pruned search against the reference\<close>

lemma maxLoop_window:
  assumes R: "\<And>c c0 a be v. wfCells c0 \<Longrightarrow> wfPlayers c0 \<Longrightarrow> eraseWinner c = eraseWinner c0 \<Longrightarrow> a < be
                 \<Longrightarrow> rec0 c0 = Some (Inr v)
                 \<Longrightarrow> \<exists>v' c'. rec c a be = Some (Inr (v', c')) \<and> eraseWinner c' = eraseWinner c0 \<and> window a be v v'"
    and "wfCells b0" "wfPlayers b0" "eraseWinner b = eraseWinner b0" "best \<le> alpha" "alpha < beta"
    and "fullMax rec0 cfg b0 ms NegInf = Some (Inr w)"
  shows "\<exists>r b'. maxLoop rec cfg b alpha beta ms best = Some (Inr (r, b')) \<and> eraseWinner b' = eraseWinner b0
              \<and> best \<le> r \<and> window alpha beta w r"
  using assms(4-7)
proof (induction ms arbitrary: b alpha best w)
  case Nil
  then have "w = NegInf" by simp
  moreover have "window alpha beta NegInf best"
    using Nil.prems(2,3) by (auto simp: window_def)
  ultimately show ?case using Nil.prems(1) by simp
next
  case (Cons mv rest)
  note wf0 = assms(2,3)
  have wfb: "wfCells b" "wfPlayers b"
    using wfCells_erased[OF Cons.prems(1)[symmetric] wf0(1)] wfPlayers_erased[OF Cons.prems(1)[symmetric] wf0(2)] .
  from fullMax_Cons[OF Cons.prems(4)] obtain c0 v1 wr where
    r0: "applyMoveAndTurn b0 (fst mv) (snd mv) (maxStackSize cfg) = Inr c0"
        "rec0 c0 = Some (Inr v1)" "fullMax rec0 cfg b0 rest NegInf = Some (Inr wr)" "w = max v1 wr"
    by blast
  obtain c where c: "applyMoveAndTurn b (fst mv) (snd mv) (maxStackSize cfg) = Inr c" "eraseWinner c = eraseWinner c0"
    using applyMoveAndTurn_erased[OF Cons.prems(1)[symmetric] r0(1)] by blast
  have wfc0: "wfCells c0" "wfPlayers c0"
    using wfCells_apply[OF wf0(1) r0(1)] wfPlayers_apply[OF wf0(2) r0(1)] .
  obtain v1' c' where c': "rec c alpha beta = Some (Inr (v1', c'))" "eraseWinner c' = eraseWinner c0"
      "window alpha beta v1 v1'"
    using R[OF wfc0 c(2) Cons.prems(3) r0(2)] by blast
  have "eraseWinner c' = eraseWinner c" using c'(2) c(2) by simp
  from undo_apply[OF wfb c(1) this] obtain b3 where
    b3: "undoMove c' (logMove b (fst mv) (snd mv)) = Inr b3" "eraseWinner b3 = eraseWinner b"
    by blast
  have e3: "eraseWinner b3 = eraseWinner b0" using b3(2) Cons.prems(1) by simp
  let ?m = "max best v1'" and ?a = "max alpha (max best v1')"
  show ?case
  proof (cases "beta \<le> ?a")
    case True
    have "maxLoop rec cfg b alpha beta (mv # rest) best = Some (Inr (?m, b3))"
      using c(1) c'(1) b3(1) True by (simp add: Let_def)
    moreover have "window alpha beta w ?m"
      unfolding r0(4) by (rule window_cut_max[OF Cons.prems(2,3) c'(3) True])
    ultimately show ?thesis using e3 by simp
  next
    case False
    have step: "maxLoop rec cfg b alpha beta (mv # rest) best = maxLoop rec cfg b3 ?a beta rest ?m"
      using c(1) c'(1) b3(1) False by (simp add: Let_def)
    have "?m \<le> ?a" "?a < beta" using False by (simp_all add: not_le)
    from Cons.IH[OF e3 this r0(3)] obtain r b' where
      ih: "maxLoop rec cfg b3 ?a beta rest ?m = Some (Inr (r, b'))" "eraseWinner b' = eraseWinner b0"
          "?m \<le> r" "window ?a beta wr r"
      by blast
    have "window alpha beta w r"
      unfolding r0(4) by (rule window_step_max[OF Cons.prems(2,3) c'(3) False ih(3,4)])
    moreover have "best \<le> r" using ih(3) by (simp only: max.bounded_iff)
    ultimately show ?thesis unfolding step using ih(1,2) by simp
  qed
qed

lemma minLoop_window:
  assumes R: "\<And>c c0 a be v. wfCells c0 \<Longrightarrow> wfPlayers c0 \<Longrightarrow> eraseWinner c = eraseWinner c0 \<Longrightarrow> a < be
                 \<Longrightarrow> rec0 c0 = Some (Inr v)
                 \<Longrightarrow> \<exists>v' c'. rec c a be = Some (Inr (v', c')) \<and> eraseWinner c' = eraseWinner c0 \<and> window a be v v'"
    and "wfCells b0" "wfPlayers b0" "eraseWinner b = eraseWinner b0" "beta \<le> best" "alpha < beta"
    and "fullMin rec0 cfg b0 ms PosInf = Some (Inr w)"
  shows "\<exists>r b'. minLoop rec cfg b alpha beta ms best = Some (Inr (r, b')) \<and> eraseWinner b' = eraseWinner b0
              \<and> r \<le> best \<and> window alpha beta w r"
  using assms(4-7)
proof (induction ms arbitrary: b beta best w)
  case Nil
  then have "w = PosInf" by simp
  moreover have "window alpha beta PosInf best"
    using Nil.prems(2,3) by (auto simp: window_def)
  ultimately show ?case using Nil.prems(1) by simp
next
  case (Cons mv rest)
  note wf0 = assms(2,3)
  have wfb: "wfCells b" "wfPlayers b"
    using wfCells_erased[OF Cons.prems(1)[symmetric] wf0(1)] wfPlayers_erased[OF Cons.prems(1)[symmetric] wf0(2)] .
  from fullMin_Cons[OF Cons.prems(4)] obtain c0 v1 wr where
    r0: "applyMoveAndTurn b0 (fst mv) (snd mv) (maxStackSize cfg) = Inr c0"
        "rec0 c0 = Some (Inr v1)" "fullMin rec0 cfg b0 rest PosInf = Some (Inr wr)" "w = min v1 wr"
    by blast
  obtain c where c: "applyMoveAndTurn b (fst mv) (snd mv) (maxStackSize cfg) = Inr c" "eraseWinner c = eraseWinner c0"
    using applyMoveAndTurn_erased[OF Cons.prems(1)[symmetric] r0(1)] by blast
  have wfc0: "wfCells c0" "wfPlayers c0"
    using wfCells_apply[OF wf0(1) r0(1)] wfPlayers_apply[OF wf0(2) r0(1)] .
  obtain v1' c' where c': "rec c alpha beta = Some (Inr (v1', c'))" "eraseWinner c' = eraseWinner c0"
      "window alpha beta v1 v1'"
    using R[OF wfc0 c(2) Cons.prems(3) r0(2)] by blast
  have "eraseWinner c' = eraseWinner c" using c'(2) c(2) by simp
  from undo_apply[OF wfb c(1) this] obtain b3 where
    b3: "undoMove c' (logMove b (fst mv) (snd mv)) = Inr b3" "eraseWinner b3 = eraseWinner b"
    by blast
  have e3: "eraseWinner b3 = eraseWinner b0" using b3(2) Cons.prems(1) by simp
  let ?m = "min best v1'" and ?a = "min beta (min best v1')"
  show ?case
  proof (cases "?a \<le> alpha")
    case True
    have "minLoop rec cfg b alpha beta (mv # rest) best = Some (Inr (?m, b3))"
      using c(1) c'(1) b3(1) True by (simp add: Let_def)
    moreover have "window alpha beta w ?m"
      unfolding r0(4) by (rule window_cut_min[OF Cons.prems(2,3) c'(3) True])
    ultimately show ?thesis using e3 by simp
  next
    case False
    have step: "minLoop rec cfg b alpha beta (mv # rest) best = minLoop rec cfg b3 alpha ?a rest ?m"
      using c(1) c'(1) b3(1) False by (simp add: Let_def)
    have "?a \<le> ?m" by (rule min.cobounded2)
    moreover have "alpha < ?a" using False by (simp add: not_le)
    ultimately have "?a \<le> ?m" "alpha < ?a" by blast+
    from Cons.IH[OF e3 this r0(3)] obtain r b' where
      ih: "minLoop rec cfg b3 alpha ?a rest ?m = Some (Inr (r, b'))" "eraseWinner b' = eraseWinner b0"
          "r \<le> ?m" "window alpha ?a wr r"
      by blast
    have "window alpha beta w r"
      unfolding r0(4) by (rule window_step_min[OF Cons.prems(2,3) c'(3) False ih(3,4)])
    moreover have "r \<le> best" using ih(3) by (simp only: min.bounded_iff)
    ultimately show ?thesis unfolding step using ih(1,2) by simp
  qed
qed


lemma getTerminalNodeState_follow:
  assumes "eraseWinner b = eraseWinner b0" "getTerminalNodeState b0 d cfg = Inr (r, c0)"
  shows "\<exists>c. getTerminalNodeState b d cfg = Inr (r, c) \<and> eraseWinner c = eraseWinner b0 \<and> (r = None \<longrightarrow> c = b)"
proof -
  have "map_sum id fst (getTerminalNodeState b d cfg) = Inr r"
    using getTerminalNodeState_erased[OF assms(1), of d cfg] assms(2) by simp
  then obtain c where c: "getTerminalNodeState b d cfg = Inr (r, c)"
    by (cases "getTerminalNodeState b d cfg") auto
  from getTerminalNodeState_state[OF c] assms(1) c show ?thesis by auto
qed

lemma minimax_window:
  assumes "wfCells b0" "wfPlayers b0" "eraseWinner b = eraseWinner b0" "alpha < beta"
    and "fullMinimax n cfg b0 d = Some (Inr v)"
  shows "\<exists>v' b'. minimax n cfg b d alpha beta = Some (Inr (v', b')) \<and> eraseWinner b' = eraseWinner b0
               \<and> window alpha beta v v'"
  using assms
proof (induction n arbitrary: b0 b d alpha beta v)
  case 0
  then show ?case by simp
next
  case (Suc n)
  let ?rec = "\<lambda>c a be. minimax n cfg c (d + 1) a be"
  let ?ref = "\<lambda>c. fullMinimax n cfg c (d + 1)"
  have R: "\<exists>v' c'. ?rec c a be = Some (Inr (v', c')) \<and> eraseWinner c' = eraseWinner c0 \<and> window a be v v'"
    if "wfCells c0" "wfPlayers c0" "eraseWinner c = eraseWinner c0" "a < be" "?ref c0 = Some (Inr v)"
    for c c0 a be v
    using Suc.IH[OF that] .
  obtain r c0 where t0: "getTerminalNodeState b0 d cfg = Inr (r, c0)"
    using Suc.prems(5) by (auto split: sum.splits)
  obtain c where t: "getTerminalNodeState b d cfg = Inr (r, c)" "eraseWinner c = eraseWinner b0" "r = None \<longrightarrow> c = b"
    using getTerminalNodeState_follow[OF Suc.prems(3) t0] by blast
  show ?case
  proof (cases r)
    case (Some ev)
    then have "v = ev" using Suc.prems(5) t0 by simp
    moreover have "minimax (Suc n) cfg b d alpha beta = Some (Inr (ev, c))"
      using t(1) Some by (simp add: Let_def)
    ultimately show ?thesis using t(2) window_refl by simp
  next
    case None
    then have cb: "c = b" using t(3) by simp
    obtain i where i0: "findIdx (\<lambda>p. turn p = True) (twoPlayer b0) = Some i"
      using Suc.prems(5) t0 None by (auto split: option.splits)
    have i: "findIdx (\<lambda>p. turn p = True) (twoPlayer b) = Some i"
      using findIdx_erased[OF Suc.prems(3), of "\<lambda>p. turn p = True"] i0 by simp
    have il: "i < length (twoPlayer b0)" using i0 by (simp add: findIdx_Some)
    note ef = erased_fields[OF eraseWinner_players(2)[OF Suc.prems(3) il]]
    have c: "cells b = cells b0" using Suc.prems(3) by (simp add: eraseWinner_eq_iff)
    have mv: "getAllPossibleMoves b (twoPlayer b ! i) = getAllPossibleMoves b0 (twoPlayer b0 ! i)"
      by (rule getAllPossibleMoves_cong[OF c ef(1) ef(4)])
    let ?ms = "getAllPossibleMoves b0 (twoPlayer b0 ! i)"
    show ?thesis
    proof (cases "isMaximizing (twoPlayer b0 ! i)")
      case True
      have f0: "fullMax ?ref cfg b0 ?ms NegInf = Some (Inr v)"
        using Suc.prems(5) t0 None i0 True by simp
      have m: "minimax (Suc n) cfg b d alpha beta = maxLoop ?rec cfg b alpha beta ?ms NegInf"
        using t(1) None cb i mv True ef(2) by (simp add: Let_def)
      have "\<exists>r b'. maxLoop ?rec cfg b alpha beta ?ms NegInf = Some (Inr (r, b')) \<and> eraseWinner b' = eraseWinner b0
              \<and> NegInf \<le> r \<and> window alpha beta v r"
      proof (rule maxLoop_window[where rec="?rec" and ?rec0.0="?ref", OF _ Suc.prems(1,2,3) _ Suc.prems(4) f0])
        show "NegInf \<le> alpha" by simp
      next
        fix c c0 :: boardState and a be v :: score
        assume "wfCells c0" "wfPlayers c0" "eraseWinner c = eraseWinner c0" "a < be" "?ref c0 = Some (Inr v)"
        then show "\<exists>v' c'. ?rec c a be = Some (Inr (v', c')) \<and> eraseWinner c' = eraseWinner c0 \<and> window a be v v'"
          by (rule R)
      qed
      then show ?thesis unfolding m by blast
    next
      case False
      have f0: "fullMin ?ref cfg b0 ?ms PosInf = Some (Inr v)"
        using Suc.prems(5) t0 None i0 False by simp
      have m: "minimax (Suc n) cfg b d alpha beta = minLoop ?rec cfg b alpha beta ?ms PosInf"
        using t(1) None cb i mv False ef(2) by (simp add: Let_def)
      have "\<exists>r b'. minLoop ?rec cfg b alpha beta ?ms PosInf = Some (Inr (r, b')) \<and> eraseWinner b' = eraseWinner b0
              \<and> r \<le> PosInf \<and> window alpha beta v r"
      proof (rule minLoop_window[where rec="?rec" and ?rec0.0="?ref", OF _ Suc.prems(1,2,3) _ Suc.prems(4) f0])
        show "beta \<le> PosInf" by simp
      next
        fix c c0 :: boardState and a be v :: score
        assume "wfCells c0" "wfPlayers c0" "eraseWinner c = eraseWinner c0" "a < be" "?ref c0 = Some (Inr v)"
        then show "\<exists>v' c'. ?rec c a be = Some (Inr (v', c')) \<and> eraseWinner c' = eraseWinner c0 \<and> window a be v v'"
          by (rule R)
      qed
      then show ?thesis unfolding m by blast
    qed
  qed
qed

subsection \<open>Enough fuel\<close>

lemma getTerminalNodeState_continue:
  assumes "getTerminalNodeState b d cfg = Inr (None, b1)"
  shows "d \<noteq> depth cfg"
proof
  assume d: "d = depth cfg"
  have "map_sum id fst (getTerminalNodeState b d cfg) = Inr None" using assms by simp
  moreover have "map_sum id (\<lambda>acc. Some (g acc)) x \<noteq> Inr None" for g :: "evalAcc \<Rightarrow> score" and x :: "error + evalAcc"
    by (cases x) simp_all
  ultimately show False
    unfolding getTerminalNodeState_value d
    by (auto split: option.splits sum.splits bool.splits)
qed

lemma fullMax_total:
  assumes "\<forall>c. rec c \<noteq> None"
  shows "fullMax rec cfg b ms best \<noteq> None"
proof (induction ms arbitrary: best)
  case Nil
  show ?case by simp
next
  case (Cons mv rest)
  show ?case
  proof (cases "applyMoveAndTurn b (fst mv) (snd mv) (maxStackSize cfg)")
    case (Inl e)
    then show ?thesis by simp
  next
    case (Inr b1)
    obtain y where y: "rec b1 = Some y" using assms[rule_format, of b1] by (cases "rec b1") simp_all
    show ?thesis
    proof (cases y)
      case (Inl e)
      then show ?thesis using Inr y by simp
    next
      case r: (Inr v)
      show ?thesis using Inr y r Cons.IH by simp
    qed
  qed
qed

lemma fullMin_total:
  assumes "\<forall>c. rec c \<noteq> None"
  shows "fullMin rec cfg b ms best \<noteq> None"
proof (induction ms arbitrary: best)
  case Nil
  show ?case by simp
next
  case (Cons mv rest)
  show ?case
  proof (cases "applyMoveAndTurn b (fst mv) (snd mv) (maxStackSize cfg)")
    case (Inl e)
    then show ?thesis by simp
  next
    case (Inr b1)
    obtain y where y: "rec b1 = Some y" using assms[rule_format, of b1] by (cases "rec b1") simp_all
    show ?thesis
    proof (cases y)
      case (Inl e)
      then show ?thesis using Inr y by simp
    next
      case r: (Inr v)
      show ?thesis using Inr y r Cons.IH by simp
    qed
  qed
qed

lemma fullMinimax_fuel:
  assumes "d \<le> depth cfg" "nat (depth cfg - d) < n"
  shows "fullMinimax n cfg b d \<noteq> None"
  using assms
proof (induction n arbitrary: b d)
  case 0
  then show ?case by simp
next
  case (Suc n)
  show ?case
  proof (cases "getTerminalNodeState b d cfg")
    case (Inl e)
    then show ?thesis by simp
  next
    case (Inr rc)
    obtain r c where rc: "rc = (r, c)" by (cases rc)
    show ?thesis
    proof (cases r)
      case (Some ev)
      then show ?thesis using Inr rc by simp
    next
      case None
      have "d \<noteq> depth cfg" using getTerminalNodeState_continue Inr rc None by simp
      then have "d + 1 \<le> depth cfg" "nat (depth cfg - (d + 1)) < n"
        using Suc.prems by linarith+
      then have "fullMinimax n cfg c' (d + 1) \<noteq> None" for c'
        by (rule Suc.IH)
      then have t: "\<forall>c'. (\<lambda>c'. fullMinimax n cfg c' (d + 1)) c' \<noteq> None" by simp
      show ?thesis
        using Inr rc None fullMax_total[of "\<lambda>c'. fullMinimax n cfg c' (d + 1)", OF t]
          fullMin_total[of "\<lambda>c'. fullMinimax n cfg c' (d + 1)", OF t]
        by (simp split: option.splits)
    qed
  qed
qed

subsection \<open>Alpha-beta against full-width minimax\<close>

text \<open>
  C3. On a board of the data model and with whole-number weights, for every search depth of
  the settings: with fuel beyond the remaining depth the full-width minimax without pruning
  returns, and whenever it returns a score, \<^verbatim>\<open>minimax\<close> called with the window from
  \<^verbatim>\<open>-Infinity\<close> to \<^verbatim>\<open>Infinity\<close> on the same board and depth returns the same score.
  (Where the reference throws there is no score to compare: the pruned search may have cut
  the throwing branch.)
\<close>

theorem alphabeta_equals_fullMinimax:
  assumes "wfCells b" "wfPlayers b" "wholeWeights cfg" "d \<le> depth cfg" "nat (depth cfg - d) < n"
  shows "(\<exists>e. fullMinimax n cfg b d = Some (Inl e))
       \<or> (\<exists>v b'. fullMinimax n cfg b d = Some (Inr v)
                 \<and> minimax n cfg b d NegInf PosInf = Some (Inr (v, b')))"
proof (cases "fullMinimax n cfg b d")
  case None
  then show ?thesis using fullMinimax_fuel[OF assms(4,5), of b] by simp
next
  case (Some r)
  show ?thesis
  proof (cases r)
    case (Inl e)
    then show ?thesis using Some by simp
  next
    case (Inr v)
    then have f: "fullMinimax n cfg b d = Some (Inr v)" using Some by simp
    from minimax_window[OF assms(1,2) refl NegInf_less_PosInf f] obtain v' b' where
      m: "minimax n cfg b d NegInf PosInf = Some (Inr (v', b'))" "window NegInf PosInf v v'"
      by blast
    have "v' = v" using window_full[OF m(2)] .
    then show ?thesis using f m(1) by simp
  qed
qed

theorem alphabeta_equals_fullMinimax_witness:
  "fullMinimax 2 (factorySettings\<lparr>depth := 1\<rparr>) lockBoard 0 = Some (Inr (Fin (- 80)))
   \<and> (\<exists>b'. minimax 2 (factorySettings\<lparr>depth := 1\<rparr>) lockBoard 0 NegInf PosInf = Some (Inr (Fin (- 80), b')))"
proof -
  have h1: "wfCells lockBoard" unfolding lockBoard_def by (intro wfCells_putTower wfCells_emptyBoard)
  have h2: "wfPlayers lockBoard" by code_simp
  have h3: "wholeWeights (factorySettings\<lparr>depth := 1\<rparr>)"
    by (simp add: wholeWeights_def factorySettings_def)
  have h4: "0 \<le> depth (factorySettings\<lparr>depth := 1\<rparr>)"
    "nat (depth (factorySettings\<lparr>depth := 1\<rparr>) - 0) < 2" by simp_all
  have f: "fullMinimax 2 (factorySettings\<lparr>depth := 1\<rparr>) lockBoard 0 = Some (Inr (Fin (- 80)))"
    by code_simp
  show ?thesis using alphabeta_equals_fullMinimax[OF h1 h2 h3 h4] unfolding f by simp
qed

subsection \<open>The choice of the best move\<close>

lemma greatest_exists:
  fixes xs :: "('a \<times> score) list"
  assumes "xs \<noteq> []"
  shows "\<exists>z \<in> set xs. \<forall>y \<in> set xs. snd y \<le> snd z"
  using assms
proof (induction xs)
  case Nil
  then show ?case by simp
next
  case (Cons x xs)
  show ?case
  proof (cases "xs = []")
    case True
    then show ?thesis by simp
  next
    case False
    from Cons.IH[OF this] obtain z where z: "z \<in> set xs" "\<forall>y \<in> set xs. snd y \<le> snd z" by blast
    show ?thesis
    proof (cases "snd x \<le> snd z")
      case True
      then show ?thesis using z by auto
    next
      case False
      then have "snd z \<le> snd x" by simp
      then have "\<forall>y \<in> set xs. snd y \<le> snd x" using z(2) by (meson order_trans)
      then show ?thesis by auto
    qed
  qed
qed

lemma find_skip: "\<not> P x \<Longrightarrow> List.find P (x # xs) = List.find P xs"
  by simp

lemma pickBest_find:
  "pickBest s m xs =
     (case List.find (\<lambda>x. s < snd x \<and> (\<forall>y \<in> set xs. snd y \<le> snd x)) xs of
        None \<Rightarrow> m
      | Some x \<Rightarrow> Some (fst x))"
proof (induction xs arbitrary: s m)
  case Nil
  show ?case by simp
next
  case (Cons x xs)
  let ?A = "\<lambda>z. \<forall>y \<in> set xs. snd y \<le> snd z"
  let ?P = "\<lambda>z. s < snd z \<and> (\<forall>y \<in> set (x # xs). snd y \<le> snd z)"
  show ?case
  proof (cases "s < snd x")
    case True
    let ?Q = "\<lambda>z. snd x < snd z \<and> ?A z"
    have l: "pickBest s m (x # xs) = (case List.find ?Q xs of None \<Rightarrow> Some (fst x) | Some z \<Rightarrow> Some (fst z))"
      using True Cons.IH[of "snd x" "Some (fst x)"] by simp
    show ?thesis
    proof (cases "?A x")
      case a: True
      have "List.find ?Q xs = None"
        unfolding find_None_iff using a by (auto simp: not_less)
      moreover have "List.find ?P (x # xs) = Some x" using True a by simp
      ultimately show ?thesis unfolding l by simp
    next
      case a: False
      then obtain y where y: "y \<in> set xs" "snd x < snd y" by (auto simp: not_le)
      have pq: "?P z = ?Q z" if "z \<in> set xs" for z
      proof
        assume "?P z"
        then have "snd y \<le> snd z" "?A z" using y(1) by auto
        then show "?Q z" using y(2) by (meson less_le_trans)
      next
        assume q: "?Q z"
        then have "s < snd z" using True by (meson less_trans)
        then show "?P z" using q by auto
      qed
      have "\<not> ?P x" using a by auto
      then have "List.find ?P (x # xs) = List.find ?P xs" by (rule find_skip)
      also have "\<dots> = List.find ?Q xs" by (rule find_cong[OF refl pq])
      finally have f: "List.find ?P (x # xs) = List.find ?Q xs" .
      have "xs \<noteq> []" using y(1) by auto
      from greatest_exists[OF this] obtain z where z: "z \<in> set xs" "?A z" by blast
      then have "snd y \<le> snd z" using y(1) by auto
      then have "?Q z" using z(2) y(2) by (meson less_le_trans)
      then have "List.find ?Q xs \<noteq> None" unfolding find_None_iff using z(1) by blast
      then show ?thesis unfolding l f by (auto split: option.splits)
    qed
  next
    case False
    let ?Q = "\<lambda>z. s < snd z \<and> ?A z"
    have l: "pickBest s m (x # xs) = (case List.find ?Q xs of None \<Rightarrow> m | Some z \<Rightarrow> Some (fst z))"
      using False Cons.IH[of s m] by simp
    have pq: "?P z = ?Q z" if "z \<in> set xs" for z
    proof
      assume "?P z" then show "?Q z" by auto
    next
      assume q: "?Q z"
      have "snd x \<le> s" using False by simp
      then have "snd x \<le> snd z" using q by (meson le_less_trans less_imp_le)
      then show "?P z" using q by auto
    qed
    have "\<not> ?P x" using False by auto
    then have "List.find ?P (x # xs) = List.find ?P xs" by (rule find_skip)
    also have "\<dots> = List.find ?Q xs" by (rule find_cong[OF refl pq])
    finally show ?thesis unfolding l by simp
  qed
qed

lemma pickBest_firstBest:
  assumes "xs \<noteq> []"
  shows "firstBest xs = Some (case pickBest NegInf None xs of None \<Rightarrow> fst (xs ! 0) | Some mv \<Rightarrow> mv)"
proof -
  let ?M = "\<lambda>z. \<forall>y \<in> set xs. snd y \<le> snd z"
  let ?Q = "\<lambda>z. NegInf < snd z \<and> ?M z"
  have fb: "firstBest xs = map_option fst (List.find ?M xs)"
    by (simp add: firstBest_def list_all_iff)
  obtain x xs' where xs: "xs = x # xs'" using assms by (cases xs) auto
  show ?thesis
  proof (cases "\<forall>y \<in> set xs. snd y = NegInf")
    case True
    then have "List.find ?Q xs = None" unfolding find_None_iff by auto
    then have "pickBest NegInf None xs = None" by (simp add: pickBest_find)
    moreover have "?M x" using True xs by auto
    then have "List.find ?M xs = Some x" unfolding xs by simp
    ultimately show ?thesis unfolding fb by (simp add: xs)
  next
    case False
    then obtain y where y: "y \<in> set xs" "NegInf < snd y"
      using NegInf_least by (metis antisym_conv2)
    have "?Q z = ?M z" for z :: "(nat \<times> nat) \<times> score"
      using y by (meson less_le_trans)
    then have q: "List.find ?Q xs = List.find ?M xs" by (intro find_cong[OF refl])
    from greatest_exists[OF assms] obtain z where "z \<in> set xs" "?M z" by blast
    then have "List.find ?M xs \<noteq> None" unfolding find_None_iff by blast
    then obtain w where w: "List.find ?M xs = Some w" by auto
    show ?thesis unfolding fb by (simp add: pickBest_find q w)
  qed
qed

lemma bestLoop_pick:
  assumes "wfCells b0" "wfPlayers b0" "eraseWinner b = eraseWinner b0"
    and "map (moveValue n cfg b0) ms = map (\<lambda>v. Some (Inr v)) vs"
  shows "\<exists>b'. bestLoop n cfg b ms s m = Some (Inr (pickBest s m (zip ms vs), b')) \<and> eraseWinner b' = eraseWinner b0"
  using assms(3,4)
proof (induction ms arbitrary: b vs s m)
  case Nil
  then show ?case by simp
next
  case (Cons mv rest)
  note wf0 = assms(1,2)
  have wfb: "wfCells b" "wfPlayers b"
    using wfCells_erased[OF Cons.prems(1)[symmetric] wf0(1)] wfPlayers_erased[OF Cons.prems(1)[symmetric] wf0(2)] .
  obtain v vs' where vs: "vs = v # vs'" using Cons.prems(2) by (cases vs) auto
  have mvv: "moveValue n cfg b0 mv = Some (Inr v)"
    and rest: "map (moveValue n cfg b0) rest = map (\<lambda>v. Some (Inr v)) vs'"
    using Cons.prems(2) unfolding vs by simp_all
  obtain c0 where c0: "applyMoveAndTurn b0 (fst mv) (snd mv) (maxStackSize cfg) = Inr c0"
      "fullMinimax n cfg c0 0 = Some (Inr v)"
    using mvv by (auto simp: moveValue_def split: sum.splits)
  obtain c where c: "applyMoveAndTurn b (fst mv) (snd mv) (maxStackSize cfg) = Inr c" "eraseWinner c = eraseWinner c0"
    using applyMoveAndTurn_erased[OF Cons.prems(1)[symmetric] c0(1)] by blast
  have wfc0: "wfCells c0" "wfPlayers c0"
    using wfCells_apply[OF wf0(1) c0(1)] wfPlayers_apply[OF wf0(2) c0(1)] .
  from minimax_window[OF wfc0 c(2) NegInf_less_PosInf c0(2)] obtain v' c' where
    c': "minimax n cfg c 0 NegInf PosInf = Some (Inr (v', c'))" "eraseWinner c' = eraseWinner c0"
        "window NegInf PosInf v v'"
    by blast
  have vv: "v' = v" using window_full[OF c'(3)] .
  have "eraseWinner c' = eraseWinner c" using c'(2) c(2) by simp
  from undo_apply[OF wfb c(1) this] obtain b3 where
    b3: "undoMove c' (logMove b (fst mv) (snd mv)) = Inr b3" "eraseWinner b3 = eraseWinner b"
    by blast
  have e3: "eraseWinner b3 = eraseWinner b0" using b3(2) Cons.prems(1) by simp
  show ?case
  proof (cases "s < v")
    case True
    have step: "bestLoop n cfg b (mv # rest) s m = bestLoop n cfg b3 rest v (Some mv)"
      using c(1) c'(1) b3(1) True vv by (simp add: Let_def)
    have p: "pickBest s m (zip (mv # rest) vs) = pickBest v (Some mv) (zip rest vs')"
      using True unfolding vs by simp
    show ?thesis unfolding step p by (rule Cons.IH[OF e3 rest])
  next
    case False
    have step: "bestLoop n cfg b (mv # rest) s m = bestLoop n cfg b3 rest s m"
      using c(1) c'(1) b3(1) False vv by (simp add: Let_def)
    have p: "pickBest s m (zip (mv # rest) vs) = pickBest s m (zip rest vs')"
      using False unfolding vs by simp
    show ?thesis unfolding step p by (rule Cons.IH[OF e3 rest])
  qed
qed

lemma moveValue_total:
  assumes "0 \<le> depth cfg" "nat (depth cfg) < n"
  shows "moveValue n cfg b mv \<noteq> None"
  using fullMinimax_fuel[of 0 cfg n] assms by (simp add: moveValue_def split: sum.splits)

text \<open>
  C9. On a board of the data model with whole-number weights and a player to move:
  \<^verbatim>\<open>findBestMove\<close> raises \<open>InvalidInvocation\<close> when that player is not the maximizing one,
  raises \<open>NoLegalMoves\<close> when the maximizing mover has no move, and otherwise, the search
  giving every move a score, returns the first move in generation order whose score no other
  score exceeds: the strict comparison from \<^verbatim>\<open>-Infinity\<close> keeps the earlier of equal scores,
  and the first move when every score is \<^verbatim>\<open>-Infinity\<close>. The score of a move is the value
  of the position after it searched from depth 0, which with fuel beyond the depth of the
  settings is defined for every move.
\<close>

theorem findBestMove_spec:
  assumes "wfCells b" "wfPlayers b" "wholeWeights cfg"
    and "findIdx (\<lambda>p. turn p = True) (twoPlayer b) = Some i"
  shows "(isMaximizing (twoPlayer b ! i) = False \<longrightarrow> findBestMove n b cfg = Some (Inl InvalidInvocation))
       \<and> (isMaximizing (twoPlayer b ! i) = True \<and> getAllPossibleMoves b (twoPlayer b ! i) = []
            \<longrightarrow> findBestMove n b cfg = Some (Inl NoLegalMoves))
       \<and> (isMaximizing (twoPlayer b ! i) = True \<and> getAllPossibleMoves b (twoPlayer b ! i) \<noteq> []
            \<and> map (moveValue n cfg b) (getAllPossibleMoves b (twoPlayer b ! i)) = map (\<lambda>v. Some (Inr v)) vs
            \<longrightarrow> findBestMove n b cfg
                  = map_option Inr (firstBest (zip (getAllPossibleMoves b (twoPlayer b ! i)) vs)))
       \<and> (0 \<le> depth cfg \<and> nat (depth cfg) < n
            \<longrightarrow> (\<forall>mv \<in> set (getAllPossibleMoves b (twoPlayer b ! i)). moveValue n cfg b mv \<noteq> None))"
proof (intro conjI impI)
  assume "isMaximizing (twoPlayer b ! i) = False"
  then show "findBestMove n b cfg = Some (Inl InvalidInvocation)"
    using assms(4) by (simp add: findBestMove_def)
next
  assume "isMaximizing (twoPlayer b ! i) = True \<and> getAllPossibleMoves b (twoPlayer b ! i) = []"
  then show "findBestMove n b cfg = Some (Inl NoLegalMoves)"
    using assms(4) by (simp add: findBestMove_def)
next
  let ?ms = "getAllPossibleMoves b (twoPlayer b ! i)"
  assume a: "isMaximizing (twoPlayer b ! i) = True \<and> ?ms \<noteq> []
             \<and> map (moveValue n cfg b) ?ms = map (\<lambda>v. Some (Inr v)) vs"
  then have 2: "map (moveValue n cfg b) ?ms = map (\<lambda>v. Some (Inr v)) vs" by simp
  from bestLoop_pick[OF assms(1,2) refl 2, of NegInf None] obtain b' where
    bl: "bestLoop n cfg b ?ms NegInf None = Some (Inr (pickBest NegInf None (zip ?ms vs), b'))" by blast
  have len: "length vs = length ?ms" using arg_cong[OF 2, of length] by simp
  then have ne: "zip ?ms vs \<noteq> []" using a by (cases ?ms; cases vs) simp_all
  have z0: "fst (zip ?ms vs ! 0) = ?ms ! 0" using len a by (cases ?ms; cases vs) simp_all
  have "findBestMove n b cfg
       = Some (Inr (case pickBest NegInf None (zip ?ms vs) of None \<Rightarrow> ?ms ! 0 | Some mv \<Rightarrow> mv))"
    using assms(4) a bl by (simp add: findBestMove_def Let_def)
  also have "\<dots> = map_option Inr (firstBest (zip ?ms vs))"
    unfolding pickBest_firstBest[OF ne] z0 by simp
  finally show "findBestMove n b cfg = map_option Inr (firstBest (zip ?ms vs))" .
next
  assume "0 \<le> depth cfg \<and> nat (depth cfg) < n"
  then show "\<forall>mv \<in> set (getAllPossibleMoves b (twoPlayer b ! i)). moveValue n cfg b mv \<noteq> None"
    using moveValue_total by blast
qed

theorem findBestMove_spec_witness:
  "findBestMove 2 lockBoard (factorySettings\<lparr>depth := 1\<rparr>) = Some (Inl InvalidInvocation)
   \<and> findBestMove 2 (emptyBoard [botPlayer\<lparr>turn := True\<rparr>, userPlayer\<lparr>turn := False\<rparr>])
         (factorySettings\<lparr>depth := 1\<rparr>) = Some (Inl NoLegalMoves)
   \<and> getAllPossibleMoves replyBoard (twoPlayer replyBoard ! 0)
       = [(35, 29), (35, 23), (35, 34), (35, 33), (35, 30), (35, 31)]
   \<and> map (moveValue 2 (factorySettings\<lparr>depth := 1\<rparr>) replyBoard) (getAllPossibleMoves replyBoard (twoPlayer replyBoard ! 0))
       = map (\<lambda>v. Some (Inr v)) [Fin (- 80), Fin (- 80), Fin (- 80), Fin (- 80), Fin (- 80), Fin (- 80)]
   \<and> findBestMove 2 replyBoard (factorySettings\<lparr>depth := 1\<rparr>) = Some (Inr (35, 29))"
proof -
  let ?cfg = "factorySettings\<lparr>depth := 1\<rparr>"
  let ?e = "emptyBoard [botPlayer\<lparr>turn := True\<rparr>, userPlayer\<lparr>turn := False\<rparr>]"
  let ?vs = "[Fin (- 80), Fin (- 80), Fin (- 80), Fin (- 80), Fin (- 80), Fin (- 80)]"
  have w: "wholeWeights ?cfg" by (simp add: wholeWeights_def factorySettings_def)
  have l: "wfCells lockBoard" unfolding lockBoard_def by (intro wfCells_putTower wfCells_emptyBoard)
  have l2: "wfPlayers lockBoard" by code_simp
  have l3: "findIdx (\<lambda>p. turn p = True) (twoPlayer lockBoard) = Some 1" by code_simp
  have l4: "isMaximizing (twoPlayer lockBoard ! 1) = False" by code_simp
  have e: "wfCells ?e" by (rule wfCells_emptyBoard)
  have e2: "wfPlayers ?e" by code_simp
  have e3: "findIdx (\<lambda>p. turn p = True) (twoPlayer ?e) = Some 0" by code_simp
  have e4: "isMaximizing (twoPlayer ?e ! 0) = True \<and> getAllPossibleMoves ?e (twoPlayer ?e ! 0) = []" by code_simp
  have r: "wfCells replyBoard" unfolding replyBoard_def by (intro wfCells_putTower wfCells_emptyBoard)
  have r2: "wfPlayers replyBoard" by code_simp
  have r3: "findIdx (\<lambda>p. turn p = True) (twoPlayer replyBoard) = Some 0" by code_simp
  have r4: "isMaximizing (twoPlayer replyBoard ! 0) = True" by code_simp
  have ms: "getAllPossibleMoves replyBoard (twoPlayer replyBoard ! 0)
             = [(35, 29), (35, 23), (35, 34), (35, 33), (35, 30), (35, 31)]" by code_simp
  have vals: "map (moveValue 2 ?cfg replyBoard) [(35, 29), (35, 23), (35, 34), (35, 33), (35, 30), (35, 31)]
             = map (\<lambda>v. Some (Inr v)) ?vs" by code_simp
  have fb: "firstBest (zip [(35, 29), (35, 23), (35, 34), (35, 33), (35, 30), (35, 31)] ?vs) = Some (35, 29)"
    by code_simp
  have "findBestMove 2 lockBoard ?cfg = Some (Inl InvalidInvocation)"
    using findBestMove_spec[OF l l2 w l3, of 2] l4 by blast
  moreover have "findBestMove 2 ?e ?cfg = Some (Inl NoLegalMoves)"
    using findBestMove_spec[OF e e2 w e3, of 2] e4 by blast
  moreover have "findBestMove 2 replyBoard ?cfg = Some (Inr (35, 29))"
    using findBestMove_spec[OF r r2 w r3, of 2 ?vs] r4 vals unfolding ms fb by simp
  ultimately show ?thesis using ms vals by simp
qed

end
